theory Spec2Isabelle
  imports Complex_Main
begin

section \<open>Board (src/game/Board.ts)\<close>

datatype Player = Red | Black

datatype PieceType = Regular | King

record Piece =
  pplayer :: Player
  ptype :: PieceType

text \<open>
  Exceptions of the JavaScript runtime that the modelled code can raise: a \<open>TypeError\<close>
  when a property of \<open>undefined\<close> is read or written (indexing a row that does not
  exist), and a \<open>RangeError\<close> when the call stack is exhausted by recursion.
\<close>

datatype error = TypeError | RangeError

text \<open>
  The grid is an array of eight rows that is never resized; a row is a JavaScript array, so
  reading a column index it does not have yields \<open>undefined\<close> and writing one adds the
  property. Both \<open>null\<close> and \<open>undefined\<close> are \<open>None\<close>. A row index outside
  0..7 denotes a row that does not exist: every access to it is preceded by a range check
  or raises \<open>TypeError\<close>.

  A cell holds a reference to a piece object. The constructor and \<open>clone\<close> make a
  fresh object for every cell, and the engine changes a board only through
  \<open>removePiece\<close> and \<open>movePiece\<close>, which never put one object into two cells.
  On such a board the in-place promotion of \<open>movePiece\<close> is seen through the
  destination cell only, and the grid below holds the pieces themselves. \<open>setPiece\<close>
  stores the object that it is given, so a caller can put one object into two cells: the
  subsection on piece objects models the grid of references and the store of the objects,
  the promotion is stated there, and the boards that the engine moves on, which are all
  made by \<open>clone\<close>, are shown there to be boards of this kind.
\<close>

record Board =
  grid :: "int \<Rightarrow> int \<Rightarrow> Piece option"

definition inRange :: "int \<Rightarrow> bool" where
  "inRange i = (0 \<le> i \<and> i < 8)"

text \<open>The assignment \<open>this.grid[row][col] = v\<close>, for a row that exists.\<close>

definition setCell :: "Board \<Rightarrow> int \<Rightarrow> int \<Rightarrow> Piece option \<Rightarrow> Board" where
  "setCell board row col v = board\<lparr>grid := (grid board)(row := (grid board row)(col := v))\<rparr>"

definition emptyBoard :: Board where
  "emptyBoard = \<lparr>grid = (\<lambda>row col. None)\<rparr>"

text \<open>
  The grid that the two nested loops of \<open>createInitialBoard\<close> fill: Red on the dark
  squares of rows 0 to 2, Black on those of rows 5 to 7.
\<close>

definition createInitialBoard :: "int \<Rightarrow> int \<Rightarrow> Piece option" where
  "createInitialBoard = (\<lambda>row col.
     if 0 \<le> row \<and> row < 3 \<and> 0 \<le> col \<and> col < 8 \<and> (row + col) mod 2 = 1
       then Some \<lparr>pplayer = Red, ptype = PieceType.Regular\<rparr>
     else if 5 \<le> row \<and> row < 8 \<and> 0 \<le> col \<and> col < 8 \<and> (row + col) mod 2 = 1
       then Some \<lparr>pplayer = Black, ptype = PieceType.Regular\<rparr>
     else None)"

definition initialBoard :: Board where
  "initialBoard = \<lparr>grid = createInitialBoard\<rparr>"

definition getPieceAt :: "Board \<Rightarrow> int \<Rightarrow> int \<Rightarrow> Piece option" where
  "getPieceAt board row col =
     (if row < 0 \<or> row \<ge> 8 \<or> col < 0 \<or> col \<ge> 8 then None else grid board row col)"

definition setPiece :: "Board \<Rightarrow> int \<Rightarrow> int \<Rightarrow> Piece option \<Rightarrow> Board" where
  "setPiece board row col piece =
     (if row \<ge> 0 \<and> row < 8 \<and> col \<ge> 0 \<and> col < 8 then setCell board row col piece else board)"

definition getPieces :: "Board \<Rightarrow> Player \<Rightarrow> (Piece \<times> int \<times> int) list" where
  "getPieces board player =
     concat (map (\<lambda>row. concat (map (\<lambda>col.
         case grid board row col of
           Some piece \<Rightarrow> if pplayer piece = player then [(piece, row, col)] else []
         | None \<Rightarrow> [])
       [0..7])) [0..7])"

text \<open>
  \<open>movePiece\<close> indexes the grid without a range check. Reading \<open>this.grid[fromRow]\<close>
  of a row that does not exist raises; so does the write to \<open>this.grid[toRow]\<close>, which
  comes after the source cell has been cleared. The promotion mutates the piece object that
  the destination cell already holds.
\<close>

definition movePiece :: "Board \<Rightarrow> int \<Rightarrow> int \<Rightarrow> int \<Rightarrow> int \<Rightarrow> error + Board" where
  "movePiece board fromRow fromCol toRow toCol =
     (if \<not> inRange fromRow then Inl TypeError
      else case grid board fromRow fromCol of
        None \<Rightarrow> Inr board
      | Some piece \<Rightarrow>
          if \<not> inRange toRow then Inl TypeError
          else Inr (setCell (setCell board fromRow fromCol None) toRow toCol
            (Some (if ptype piece = PieceType.Regular then
                     (if pplayer piece = Red \<and> toRow = 7 then piece\<lparr>ptype := King\<rparr>
                      else if pplayer piece = Black \<and> toRow = 0 then piece\<lparr>ptype := King\<rparr>
                      else piece)
                   else piece))))"

definition removePiece :: "Board \<Rightarrow> int \<Rightarrow> int \<Rightarrow> Board" where
  "removePiece board row col =
     (if row \<ge> 0 \<and> row < 8 \<and> col \<ge> 0 \<and> col < 8 then setCell board row col None else board)"

text \<open>\<open>clone\<close> copies the 64 cells of the grid into a fresh empty board.\<close>

definition clone :: "Board \<Rightarrow> Board" where
  "clone board = \<lparr>grid = (\<lambda>row col.
     if 0 \<le> row \<and> row < 8 \<and> 0 \<le> col \<and> col < 8 then
       (case grid board row col of Some piece \<Rightarrow> Some piece | None \<Rightarrow> None)
     else None)\<rparr>"

subsection \<open>Piece objects\<close>

text \<open>
  The grid as the code has it: a cell holds a reference to a piece object, or nothing, and
  the objects live in a store. \<open>setPiece\<close> stores the reference that it is given,
  and the promotion of \<open>movePiece\<close> is the assignment
  \<open>piece.type = PieceType.King\<close> to the object, seen through every cell that holds it.
\<close>

type_synonym ref = nat

type_synonym store = "ref \<Rightarrow> Piece"

record RefBoard =
  refGrid :: "int \<Rightarrow> int \<Rightarrow> ref option"

definition setRefCell :: "RefBoard \<Rightarrow> int \<Rightarrow> int \<Rightarrow> ref option \<Rightarrow> RefBoard" where
  "setRefCell board row col v =
     board\<lparr>refGrid := (refGrid board)(row := (refGrid board row)(col := v))\<rparr>"

definition emptyRefBoard :: RefBoard where
  "emptyRefBoard = \<lparr>refGrid = (\<lambda>row col. None)\<rparr>"

definition getPieceAtRef :: "RefBoard \<Rightarrow> int \<Rightarrow> int \<Rightarrow> ref option" where
  "getPieceAtRef board row col =
     (if row < 0 \<or> row \<ge> 8 \<or> col < 0 \<or> col \<ge> 8 then None else refGrid board row col)"

definition setPieceRef :: "RefBoard \<Rightarrow> int \<Rightarrow> int \<Rightarrow> ref option \<Rightarrow> RefBoard" where
  "setPieceRef board row col piece =
     (if row \<ge> 0 \<and> row < 8 \<and> col \<ge> 0 \<and> col < 8 then setRefCell board row col piece else board)"

definition movePieceRef ::
  "store \<Rightarrow> RefBoard \<Rightarrow> int \<Rightarrow> int \<Rightarrow> int \<Rightarrow> int \<Rightarrow> error + store \<times> RefBoard" where
  "movePieceRef store board fromRow fromCol toRow toCol =
     (if \<not> inRange fromRow then Inl TypeError
      else case refGrid board fromRow fromCol of
        None \<Rightarrow> Inr (store, board)
      | Some piece \<Rightarrow>
          if \<not> inRange toRow then Inl TypeError
          else Inr
            (if ptype (store piece) = PieceType.Regular then
               (if pplayer (store piece) = Red \<and> toRow = 7
                  then store(piece := (store piece)\<lparr>ptype := King\<rparr>)
                else if pplayer (store piece) = Black \<and> toRow = 0
                  then store(piece := (store piece)\<lparr>ptype := King\<rparr>)
                else store)
             else store,
             setRefCell (setRefCell board fromRow fromCol None) toRow toCol (Some piece)))"

definition removePieceRef :: "RefBoard \<Rightarrow> int \<Rightarrow> int \<Rightarrow> RefBoard" where
  "removePieceRef board row col =
     (if row \<ge> 0 \<and> row < 8 \<and> col \<ge> 0 \<and> col < 8 then setRefCell board row col None else board)"

text \<open>
  \<open>clone\<close> makes a new object \<open>{ ...piece }\<close> for every occupied cell, in the order
  of its two loops. The objects below \<open>next\<close> are those made so far; the new one takes
  the reference \<open>next\<close>.
\<close>

definition cloneRef :: "store \<Rightarrow> ref \<Rightarrow> RefBoard \<Rightarrow> store \<times> ref \<times> RefBoard" where
  "cloneRef store next board =
     fold (\<lambda>row. fold (\<lambda>col (store, next, newBoard).
         case refGrid board row col of
           Some piece \<Rightarrow>
             (store(next := store piece), Suc next, setRefCell newBoard row col (Some next))
         | None \<Rightarrow> (store, next, newBoard))
       [0..7]) [0..7] (store, next, emptyRefBoard)"

text \<open>
  The board of the first part that a grid of references stands for, the boards on which
  no object sits in two cells, and the boards whose objects have all been made.
\<close>

definition deref :: "store \<Rightarrow> RefBoard \<Rightarrow> Board" where
  "deref store board = \<lparr>grid = (\<lambda>row col. map_option store (refGrid board row col))\<rparr>"

definition unshared :: "RefBoard \<Rightarrow> bool" where
  "unshared board = (\<forall>row col row' col' piece.
     refGrid board row col = Some piece \<and> refGrid board row' col' = Some piece \<longrightarrow>
       row = row' \<and> col = col')"

definition allocated :: "ref \<Rightarrow> RefBoard \<Rightarrow> bool" where
  "allocated next board =
     (\<forall>row col piece. refGrid board row col = Some piece \<longrightarrow> piece < next)"

section \<open>Moves (src/game/Move.ts)\<close>

datatype MoveType = Regular | Capture

record Move =
  toRow :: int
  toCol :: int
  mtype :: MoveType
  capturedRow :: "int option"
  capturedCol :: "int option"

text \<open>\<open>Move.execute\<close>: the jumped piece is removed first, then the piece is moved.\<close>

definition execute :: "Board \<Rightarrow> int \<Rightarrow> int \<Rightarrow> Move \<Rightarrow> error + Board" where
  "execute board fromRow fromCol m =
     (let board1 =
        (case (capturedRow m, capturedCol m) of
           (Some cr, Some cc) \<Rightarrow>
             if mtype m = MoveType.Capture then removePiece board cr cc else board
         | _ \<Rightarrow> board)
      in movePiece board1 fromRow fromCol (toRow m) (toCol m))"

text \<open>\<open>Move.execute\<close> on the grid of references.\<close>

definition executeRef ::
  "store \<Rightarrow> RefBoard \<Rightarrow> int \<Rightarrow> int \<Rightarrow> Move \<Rightarrow> error + store \<times> RefBoard" where
  "executeRef store board fromRow fromCol m =
     (let board1 =
        (case (capturedRow m, capturedCol m) of
           (Some cr, Some cc) \<Rightarrow>
             if mtype m = MoveType.Capture then removePieceRef board cr cc else board
         | _ \<Rightarrow> board)
      in movePieceRef store board1 fromRow fromCol (toRow m) (toCol m))"

record PieceMove =
  fromRow :: int
  fromCol :: int
  move :: Move

definition DIRECTIONS :: "(int \<times> int) list" where
  "DIRECTIONS = [(-1, -1), (-1, 1), (1, -1), (1, 1)]"

definition getDirections :: "Player \<Rightarrow> PieceType \<Rightarrow> (int \<times> int) list" where
  "getDirections player type =
     (if type = King then DIRECTIONS
      else if player = Red then [(1, -1), (1, 1)]
      else [(-1, -1), (-1, 1)])"

definition isValidPosition :: "int \<Rightarrow> int \<Rightarrow> bool" where
  "isValidPosition row col = (row \<ge> 0 \<and> row < 8 \<and> col \<ge> 0 \<and> col < 8)"

definition getRegularMoves :: "Board \<Rightarrow> int \<Rightarrow> int \<Rightarrow> Player \<Rightarrow> PieceType \<Rightarrow> Move list" where
  "getRegularMoves board row col player type =
     concat (map (\<lambda>(dr, dc).
         let newRow = row + dr; newCol = col + dc in
         if isValidPosition newRow newCol \<and> getPieceAt board newRow newCol = None
         then [\<lparr>toRow = newRow, toCol = newCol, mtype = MoveType.Regular,
                capturedRow = None, capturedCol = None\<rparr>]
         else [])
       (getDirections player type))"

definition getCaptureMoves :: "Board \<Rightarrow> int \<Rightarrow> int \<Rightarrow> Player \<Rightarrow> PieceType \<Rightarrow> Move list" where
  "getCaptureMoves board row col player type =
     concat (map (\<lambda>(dr, dc).
         let jumpedRow = row + dr; jumpedCol = col + dc;
             landRow = row + 2 * dr; landCol = col + 2 * dc in
         if \<not> isValidPosition landRow landCol then []
         else
           let jumpedPiece = getPieceAt board jumpedRow jumpedCol;
               landSquare = getPieceAt board landRow landCol in
           (case jumpedPiece of
              None \<Rightarrow> []
            | Some jp \<Rightarrow>
                if pplayer jp \<noteq> player \<and> landSquare = None
                then [\<lparr>toRow = landRow, toCol = landCol, mtype = MoveType.Capture,
                       capturedRow = Some jumpedRow, capturedCol = Some jumpedCol\<rparr>]
                else []))
       (getDirections player type))"

definition getValidMoves :: "Board \<Rightarrow> int \<Rightarrow> int \<Rightarrow> Move list" where
  "getValidMoves board row col =
     (case getPieceAt board row col of
        None \<Rightarrow> []
      | Some piece \<Rightarrow>
          let captures = getCaptureMoves board row col (pplayer piece) (ptype piece) in
          if length captures > 0 then captures
          else getRegularMoves board row col (pplayer piece) (ptype piece))"

text \<open>
  The two passes of \<open>getAllValidMoves\<close> with their mutable locals: the first pass
  threads \<open>(allMoves, hasCapture)\<close> through the pieces, the second appends to
  \<open>allMoves\<close>.
\<close>

definition getAllValidMoves :: "Board \<Rightarrow> Player \<Rightarrow> PieceMove list" where
  "getAllValidMoves board player =
     (let pieces = getPieces board player;
          (allMoves, hasCapture) =
            fold (\<lambda>(piece, row, col) (allMoves, hasCapture).
                let captures = getCaptureMoves board row col (pplayer piece) (ptype piece) in
                if length captures > 0
                then (allMoves @ map (\<lambda>m. \<lparr>fromRow = row, fromCol = col, move = m\<rparr>) captures, True)
                else (allMoves, hasCapture))
              pieces ([], False)
      in if hasCapture then allMoves
         else fold (\<lambda>(piece, row, col) allMoves.
                let moves = getRegularMoves board row col (pplayer piece) (ptype piece) in
                allMoves @ map (\<lambda>m. \<lparr>fromRow = row, fromCol = col, move = m\<rparr>) moves)
              pieces allMoves)"

subsection \<open>Capture chains\<close>

text \<open>
  A \<open>for ... of\<close> loop whose body may raise: the body maps the loop state to the next
  state or to the exception, which ends the loop.
\<close>

primrec forEach :: "'a list \<Rightarrow> ('a \<Rightarrow> 's \<Rightarrow> error + 's) \<Rightarrow> 's \<Rightarrow> error + 's" where
  "forEach [] body s = Inr s"
| "forEach (x # xs) body s = (case body x s of Inl e \<Rightarrow> Inl e | Inr s' \<Rightarrow> forEach xs body s')"

lemma forEach_cong [fundef_cong]:
  "xs = ys \<Longrightarrow> s = t \<Longrightarrow> (\<And>x s. x \<in> set ys \<Longrightarrow> f x s = g x s) \<Longrightarrow> forEach xs f s = forEach ys g t"
  by (induction ys arbitrary: xs s t) (auto split: sum.splits)

text \<open>
  The occupied cells of the 8\<times>8 grid. Every jump removes one piece from them, which is
  why the enumeration of capture chains terminates.
\<close>

definition occupied :: "Board \<Rightarrow> (int \<times> int) set" where
  "occupied board = {(r, c). inRange r \<and> inRange c \<and> grid board r c \<noteq> None}"

lemma finite_occupied: "finite (occupied board)"
proof -
  have "occupied board \<subseteq> {0..7} \<times> {0..7}"
    by (auto simp: occupied_def inRange_def)
  then show ?thesis by (rule finite_subset) simp
qed

lemma getDirections_unit: "(dr, dc) \<in> set (getDirections player type) \<Longrightarrow> (dr = 1 \<or> dr = -1) \<and> (dc = 1 \<or> dc = -1)"
  by (auto simp: getDirections_def DIRECTIONS_def split: if_splits)

lemma getCaptureMoves_elem:
  assumes "m \<in> set (getCaptureMoves board row col player type)"
  shows "\<exists>dr dc jp. (dr, dc) \<in> set (getDirections player type)
     \<and> m = \<lparr>toRow = row + 2 * dr, toCol = col + 2 * dc, mtype = MoveType.Capture,
            capturedRow = Some (row + dr), capturedCol = Some (col + dc)\<rparr>
     \<and> isValidPosition (row + 2 * dr) (col + 2 * dc)
     \<and> getPieceAt board (row + dr) (col + dc) = Some jp \<and> pplayer jp \<noteq> player
     \<and> getPieceAt board (row + 2 * dr) (col + 2 * dc) = None"
  using assms
  by (auto simp: getCaptureMoves_def Let_def split: if_splits option.splits) metis+

lemma execute_capture_decreases:
  assumes m: "m \<in> set (getCaptureMoves board row col player type)"
    and ex: "execute (clone board) row col m = Inr nb"
  shows "card (occupied nb) < card (occupied board)"
proof -
  from getCaptureMoves_elem [OF m] obtain dr dc jp where
    d: "(dr, dc) \<in> set (getDirections player type)"
    and m_eq: "m = \<lparr>toRow = row + 2 * dr, toCol = col + 2 * dc, mtype = MoveType.Capture,
            capturedRow = Some (row + dr), capturedCol = Some (col + dc)\<rparr>"
    and land: "isValidPosition (row + 2 * dr) (col + 2 * dc)"
    and jp: "getPieceAt board (row + dr) (col + dc) = Some jp"
    and le: "getPieceAt board (row + 2 * dr) (col + 2 * dc) = None"
    by blast
  from jp have jin: "(row + dr, col + dc) \<in> occupied board"
    by (auto simp: getPieceAt_def occupied_def inRange_def split: if_splits)
  from le land have lout: "(row + 2 * dr, col + 2 * dc) \<notin> occupied board"
    by (auto simp: getPieceAt_def occupied_def isValidPosition_def split: if_splits)
  have fin: "finite (occupied board)" by (rule finite_occupied)
  let ?b1 = "removePiece (clone board) (row + dr) (col + dc)"
  have ex': "movePiece ?b1 row col (row + 2 * dr) (col + 2 * dc) = Inr nb"
    using ex by (simp add: execute_def m_eq)
  have occ1: "occupied ?b1 = occupied board - {(row + dr, col + dc)}"
    using jin by (auto simp: occupied_def removePiece_def setCell_def clone_def inRange_def split: option.splits if_splits)
  have lt1: "card (occupied ?b1) < card (occupied board)"
    unfolding occ1 using fin jin by (rule card_Diff1_less)
  show ?thesis
  proof (cases "grid ?b1 row col")
    case None
    with ex' have "nb = ?b1" by (simp add: movePiece_def split: if_splits)
    with lt1 show ?thesis by simp
  next
    case (Some piece)
    then have src: "(row, col) \<in> occupied ?b1"
      by (auto simp: occupied_def removePiece_def setCell_def clone_def inRange_def split: option.splits if_splits)
    have lout1: "(row + 2 * dr, col + 2 * dc) \<notin> occupied ?b1"
      using lout occ1 by simp
    from ex' Some obtain p' where
      nb: "nb = setCell (setCell ?b1 row col None) (row + 2 * dr) (col + 2 * dc) (Some p')"
      by (auto simp: movePiece_def split: if_splits)
    have "occupied nb = insert (row + 2 * dr, col + 2 * dc) (occupied ?b1 - {(row, col)})"
      using land unfolding nb
      by (auto simp: occupied_def setCell_def isValidPosition_def inRange_def split: if_splits)
    moreover have "card (insert (row + 2 * dr, col + 2 * dc) (occupied ?b1 - {(row, col)}))
        = Suc (card (occupied ?b1 - {(row, col)}))"
      using lout1 finite_occupied [of ?b1] by (intro card_insert_disjoint) auto
    moreover have "Suc (card (occupied ?b1 - {(row, col)})) = card (occupied ?b1)"
      using src finite_occupied [of ?b1] by (intro card_Suc_Diff1)
    ultimately have "card (occupied nb) = card (occupied ?b1)"
      by simp
    with lt1 show ?thesis by simp
  qed
qed

text \<open>
  \<open>findCaptureChains\<close> pushes onto the shared array \<open>allChains\<close>; the model
  returns the array as it is after the call.
\<close>

function findCaptureChains ::
  "Board \<Rightarrow> int \<Rightarrow> int \<Rightarrow> Player \<Rightarrow> PieceType \<Rightarrow> Move list \<Rightarrow> Move list list \<Rightarrow> error + Move list list" where
  "findCaptureChains board row col player type currentChain allChains =
     (let captures = getCaptureMoves board row col player type in
      if length captures = 0 then
        (if length currentChain > 0 then Inr (allChains @ [currentChain]) else Inr allChains)
      else
        forEach captures (\<lambda>capture allChains.
          case execute (clone board) row col capture of
            Inl e \<Rightarrow> Inl e
          | Inr newBoard \<Rightarrow>
              let newPiece = getPieceAt newBoard (toRow capture) (toCol capture);
                  newType = (case newPiece of Some np \<Rightarrow> ptype np | None \<Rightarrow> type)
              in findCaptureChains newBoard (toRow capture) (toCol capture) player newType
                   (currentChain @ [capture]) allChains)
          allChains)"
  by pat_completeness auto
termination
  apply (relation "measure (\<lambda>(board, row, col, player, type, currentChain, allChains). card (occupied board))")
   apply simp
  apply (auto dest: execute_capture_decreases)
  done

declare findCaptureChains.simps [simp del]

definition getCaptureChains :: "Board \<Rightarrow> int \<Rightarrow> int \<Rightarrow> error + Move list list" where
  "getCaptureChains board row col =
     (case getPieceAt board row col of
        None \<Rightarrow> Inr []
      | Some piece \<Rightarrow>
          findCaptureChains (clone board) row col (pplayer piece) (ptype piece) [] [])"

section \<open>Evaluator (src/ai/Evaluator.ts)\<close>

text \<open>
  Scores are JavaScript numbers. Every finite value the evaluator computes is a multiple of
  one half of small magnitude, on which double arithmetic is exact; they are modelled as
  rationals.
\<close>

definition WIN_SCORE :: rat where "WIN_SCORE = 10000"
definition PIECE_VALUE :: rat where "PIECE_VALUE = 100"
definition KING_VALUE :: rat where "KING_VALUE = 180"
definition CENTER_BONUS :: rat where "CENTER_BONUS = 5"
definition ADVANCE_BONUS :: rat where "ADVANCE_BONUS = 2"

definition evaluatePiece :: "Piece \<Rightarrow> int \<Rightarrow> int \<Rightarrow> Player \<Rightarrow> rat" where
  "evaluatePiece piece row col player =
     (let value = (if ptype piece = King then KING_VALUE else PIECE_VALUE);
          centerDistance = \<bar>7 / 2 - of_int col\<bar> + \<bar>7 / 2 - of_int row\<bar>;
          value = value + (7 - centerDistance) * CENTER_BONUS
      in if ptype piece = PieceType.Regular then
           (if player = Red then value + of_int row * ADVANCE_BONUS
            else value + (7 - of_int row) * ADVANCE_BONUS)
         else value)"

definition opponentOf :: "Player \<Rightarrow> Player" where
  "opponentOf player = (if player = Red then Black else Red)"

definition evaluate :: "Board \<Rightarrow> Player \<Rightarrow> rat" where
  "evaluate board player =
     (let opponent = opponentOf player;
          playerPieces = getPieces board player;
          opponentPieces = getPieces board opponent
      in if length opponentPieces = 0 then WIN_SCORE
         else if length playerPieces = 0 then - WIN_SCORE
         else
           let score = 0;
               score = fold (\<lambda>(piece, row, col) score. score + evaluatePiece piece row col player)
                         playerPieces score;
               score = fold (\<lambda>(piece, row, col) score. score - evaluatePiece piece row col opponent)
                         opponentPieces score
           in score)"

section \<open>Minimax (src/ai/Minimax.ts)\<close>

text \<open>The numbers of the search: the scores and the two infinities of the initial window.\<close>

datatype number = NegInfinity | Num rat | Infinity

instantiation number :: linorder
begin

fun less_eq_number :: "number \<Rightarrow> number \<Rightarrow> bool" where
  "less_eq_number NegInfinity y = True"
| "less_eq_number (Num a) NegInfinity = False"
| "less_eq_number (Num a) (Num b) = (a \<le> b)"
| "less_eq_number (Num a) Infinity = True"
| "less_eq_number Infinity Infinity = True"
| "less_eq_number Infinity y = False"

definition less_number :: "number \<Rightarrow> number \<Rightarrow> bool" where
  "less_number x y = (x \<le> y \<and> \<not> y \<le> x)"

instance
proof
  fix x y z :: number
  show "(x < y) = (x \<le> y \<and> \<not> y \<le> x)" by (simp add: less_number_def)
  show "x \<le> x" by (cases x) auto
  show "x \<le> y \<Longrightarrow> y \<le> z \<Longrightarrow> x \<le> z" by (cases x; cases y; cases z) auto
  show "x \<le> y \<Longrightarrow> y \<le> x \<Longrightarrow> x = y" by (cases x; cases y) auto
  show "x \<le> y \<or> y \<le> x" by (cases x; cases y) auto
qed

end

record SearchResult = PieceMove +
  score :: number

text \<open>
  The three loops of the search take the recursive call as a function of the child board and
  the current window. The loops of \<open>minimax\<close> leave at the first cutoff; the loop of
  \<open>findBestMove\<close> has no cutoff.
\<close>

fun maxLoop :: "(Board \<Rightarrow> number \<Rightarrow> number \<Rightarrow> error + number) \<Rightarrow> Board \<Rightarrow> PieceMove list
    \<Rightarrow> number \<Rightarrow> number \<Rightarrow> number \<Rightarrow> error + number" where
  "maxLoop rec board [] alpha beta maxEval = Inr maxEval"
| "maxLoop rec board (pieceMove # rest) alpha beta maxEval =
     (case execute (clone board) (fromRow pieceMove) (fromCol pieceMove) (move pieceMove) of
        Inl e \<Rightarrow> Inl e
      | Inr newBoard \<Rightarrow>
          (case rec newBoard alpha beta of
             Inl e \<Rightarrow> Inl e
           | Inr evalScore \<Rightarrow>
               let maxEval = max maxEval evalScore;
                   alpha = max alpha evalScore
               in if beta \<le> alpha then Inr maxEval
                  else maxLoop rec board rest alpha beta maxEval))"

fun minLoop :: "(Board \<Rightarrow> number \<Rightarrow> number \<Rightarrow> error + number) \<Rightarrow> Board \<Rightarrow> PieceMove list
    \<Rightarrow> number \<Rightarrow> number \<Rightarrow> number \<Rightarrow> error + number" where
  "minLoop rec board [] alpha beta minEval = Inr minEval"
| "minLoop rec board (pieceMove # rest) alpha beta minEval =
     (case execute (clone board) (fromRow pieceMove) (fromCol pieceMove) (move pieceMove) of
        Inl e \<Rightarrow> Inl e
      | Inr newBoard \<Rightarrow>
          (case rec newBoard alpha beta of
             Inl e \<Rightarrow> Inl e
           | Inr evalScore \<Rightarrow>
               let minEval = min minEval evalScore;
                   beta = min beta evalScore
               in if beta \<le> alpha then Inr minEval
                  else minLoop rec board rest alpha beta minEval))"

text \<open>
  The first argument of \<open>minimax\<close> bounds the depth of the call stack: a call that
  finds no frame left raises \<open>RangeError\<close>, as the runtime does. \<open>depth\<close> is the
  integer the source counts down and compares with zero.
\<close>

fun minimax :: "nat \<Rightarrow> Board \<Rightarrow> int \<Rightarrow> number \<Rightarrow> number \<Rightarrow> bool \<Rightarrow> Player \<Rightarrow> error + number" where
  "minimax 0 board depth alpha beta isMaximizing player = Inl RangeError"
| "minimax (Suc stack) board depth alpha beta isMaximizing player =
     (let opponent = opponentOf player;
          currentPlayer = (if isMaximizing then player else opponent)
      in if depth = 0 then Inr (Num (evaluate board player))
         else
           let moves = getAllValidMoves board currentPlayer in
           if length moves = 0 then
             Inr (if isMaximizing then Num (- WIN_SCORE) else Num WIN_SCORE)
           else if isMaximizing then
             maxLoop (\<lambda>newBoard alpha beta. minimax stack newBoard (depth - 1) alpha beta False player)
               board moves alpha beta NegInfinity
           else
             minLoop (\<lambda>newBoard alpha beta. minimax stack newBoard (depth - 1) alpha beta True player)
               board moves alpha beta Infinity)"

fun bestLoop :: "(Board \<Rightarrow> number \<Rightarrow> number \<Rightarrow> error + number) \<Rightarrow> Board \<Rightarrow> PieceMove list
    \<Rightarrow> number \<Rightarrow> number \<Rightarrow> SearchResult option \<Rightarrow> error + SearchResult option" where
  "bestLoop rec board [] alpha beta bestResult = Inr bestResult"
| "bestLoop rec board (pieceMove # rest) alpha beta bestResult =
     (case execute (clone board) (fromRow pieceMove) (fromCol pieceMove) (move pieceMove) of
        Inl e \<Rightarrow> Inl e
      | Inr newBoard \<Rightarrow>
          (case rec newBoard alpha beta of
             Inl e \<Rightarrow> Inl e
           | Inr sc \<Rightarrow>
               let bestResult =
                     (if (case bestResult of None \<Rightarrow> True | Some br \<Rightarrow> sc > score br)
                      then Some \<lparr>fromRow = fromRow pieceMove, fromCol = fromCol pieceMove,
                                  move = move pieceMove, score = sc\<rparr>
                      else bestResult);
                   alpha = max alpha sc
               in bestLoop rec board rest alpha beta bestResult))"

definition findBestMove :: "nat \<Rightarrow> Board \<Rightarrow> Player \<Rightarrow> int \<Rightarrow> error + SearchResult option" where
  "findBestMove stack board player depth =
     (let moves = getAllValidMoves board player in
      if length moves = 0 then Inr None
      else bestLoop (\<lambda>newBoard alpha beta. minimax stack newBoard (depth - 1) alpha beta False player)
             board moves NegInfinity Infinity None)"

text \<open>
  The unpruned traversal of the same tree, for comparison: the same moves, the same
  children, the same leaves, every child visited, no window.
\<close>

fun maxAll :: "(Board \<Rightarrow> error + number) \<Rightarrow> Board \<Rightarrow> PieceMove list \<Rightarrow> number \<Rightarrow> error + number" where
  "maxAll rec board [] best = Inr best"
| "maxAll rec board (pieceMove # rest) best =
     (case execute (clone board) (fromRow pieceMove) (fromCol pieceMove) (move pieceMove) of
        Inl e \<Rightarrow> Inl e
      | Inr newBoard \<Rightarrow>
          (case rec newBoard of
             Inl e \<Rightarrow> Inl e
           | Inr v \<Rightarrow> maxAll rec board rest (max best v)))"

fun minAll :: "(Board \<Rightarrow> error + number) \<Rightarrow> Board \<Rightarrow> PieceMove list \<Rightarrow> number \<Rightarrow> error + number" where
  "minAll rec board [] best = Inr best"
| "minAll rec board (pieceMove # rest) best =
     (case execute (clone board) (fromRow pieceMove) (fromCol pieceMove) (move pieceMove) of
        Inl e \<Rightarrow> Inl e
      | Inr newBoard \<Rightarrow>
          (case rec newBoard of
             Inl e \<Rightarrow> Inl e
           | Inr v \<Rightarrow> minAll rec board rest (min best v)))"

fun fullMinimax :: "nat \<Rightarrow> Board \<Rightarrow> bool \<Rightarrow> Player \<Rightarrow> error + number" where
  "fullMinimax 0 board isMaximizing player = Inr (Num (evaluate board player))"
| "fullMinimax (Suc depth) board isMaximizing player =
     (let moves = getAllValidMoves board (if isMaximizing then player else opponentOf player) in
      if moves = [] then Inr (if isMaximizing then Num (- WIN_SCORE) else Num WIN_SCORE)
      else if isMaximizing then
        maxAll (\<lambda>newBoard. fullMinimax depth newBoard False player) board moves NegInfinity
      else
        minAll (\<lambda>newBoard. fullMinimax depth newBoard True player) board moves Infinity)"

section \<open>Notions used in the statements and proofs\<close>

text \<open>
  The capture moves and the quiet steps of one piece of \<open>getPieces\<close>, tagged with its
  square; a jump as the claims describe it; a quiet move; two positions of the repository's
  tests.
\<close>

definition capturesOf :: "Board \<Rightarrow> Piece \<times> int \<times> int \<Rightarrow> PieceMove list" where
  "capturesOf board = (\<lambda>(piece, row, col).
     map (\<lambda>m. \<lparr>fromRow = row, fromCol = col, move = m\<rparr>)
       (getCaptureMoves board row col (pplayer piece) (ptype piece)))"

definition stepsOf :: "Board \<Rightarrow> Piece \<times> int \<times> int \<Rightarrow> PieceMove list" where
  "stepsOf board = (\<lambda>(piece, row, col).
     map (\<lambda>m. \<lparr>fromRow = row, fromCol = col, move = m\<rparr>)
       (getRegularMoves board row col (pplayer piece) (ptype piece)))"

definition isJump :: "Board \<Rightarrow> Player \<Rightarrow> int \<Rightarrow> int \<Rightarrow> Move \<Rightarrow> bool" where
  "isJump board player row col m =
     (mtype m = MoveType.Capture
      \<and> capturedRow m = Some ((row + toRow m) div 2)
      \<and> capturedCol m = Some ((col + toCol m) div 2)
      \<and> (case getPieceAt board ((row + toRow m) div 2) ((col + toCol m) div 2) of
            None \<Rightarrow> False | Some jumped \<Rightarrow> pplayer jumped \<noteq> player)
      \<and> isValidPosition (toRow m) (toCol m)
      \<and> getPieceAt board (toRow m) (toCol m) = None)"

definition isQuiet :: "Move \<Rightarrow> bool" where
  "isQuiet m = (mtype m = MoveType.Regular \<and> capturedRow m = None \<and> capturedCol m = None)"

definition forcedBoard :: Board where
  "forcedBoard =
     setPiece (setPiece (setPiece emptyBoard
       2 1 (Some \<lparr>pplayer = Red, ptype = PieceType.Regular\<rparr>))
       2 5 (Some \<lparr>pplayer = Red, ptype = PieceType.Regular\<rparr>))
       3 4 (Some \<lparr>pplayer = Black, ptype = PieceType.Regular\<rparr>)"

definition loneRedBoard :: Board where
  "loneRedBoard = setPiece emptyBoard 3 2 (Some \<lparr>pplayer = Red, ptype = PieceType.Regular\<rparr>)"

definition kingBoard :: Board where
  "kingBoard = setPiece emptyBoard 3 3 (Some \<lparr>pplayer = Red, ptype = King\<rparr>)"

text \<open>
  Replaying a chain from a square, each jump on a copy of the board as the enumeration
  makes them; a chain of captures, each one generated for the piece that stands on the
  current square of the current board, with the rank it has there; a chain after which
  that piece has no capture left; a maximal chain.
\<close>

fun replayChain :: "Board \<Rightarrow> int \<Rightarrow> int \<Rightarrow> Move list \<Rightarrow> error + Board \<times> int \<times> int" where
  "replayChain board row col [] = Inr (board, row, col)"
| "replayChain board row col (m # ms) =
     (case execute (clone board) row col m of
        Inl e \<Rightarrow> Inl e
      | Inr newBoard \<Rightarrow> replayChain newBoard (toRow m) (toCol m) ms)"

fun captureChain :: "Board \<Rightarrow> int \<Rightarrow> int \<Rightarrow> Move list \<Rightarrow> bool" where
  "captureChain board row col [] = True"
| "captureChain board row col (m # ms) =
     (case getPieceAt board row col of
        None \<Rightarrow> False
      | Some piece \<Rightarrow>
          m \<in> set (getCaptureMoves board row col (pplayer piece) (ptype piece))
          \<and> (case execute (clone board) row col m of
                Inl e \<Rightarrow> False
              | Inr newBoard \<Rightarrow> captureChain newBoard (toRow m) (toCol m) ms))"

definition noCaptureAfter :: "Board \<Rightarrow> int \<Rightarrow> int \<Rightarrow> Move list \<Rightarrow> bool" where
  "noCaptureAfter board row col chain =
     (case replayChain board row col chain of
        Inl e \<Rightarrow> False
      | Inr (board', row', col') \<Rightarrow>
          (case getPieceAt board' row' col' of
             None \<Rightarrow> False
           | Some piece \<Rightarrow> getCaptureMoves board' row' col' (pplayer piece) (ptype piece) = []))"

definition maximalChain :: "Board \<Rightarrow> int \<Rightarrow> int \<Rightarrow> Move list \<Rightarrow> bool" where
  "maximalChain board row col chain =
     (chain \<noteq> [] \<and> captureChain board row col chain \<and> noCaptureAfter board row col chain)"

text \<open>A chain in which every move is a jump on the board that the moves before it leave.\<close>

fun jumpChain :: "Board \<Rightarrow> Player \<Rightarrow> int \<Rightarrow> int \<Rightarrow> Move list \<Rightarrow> bool" where
  "jumpChain board player row col [] = True"
| "jumpChain board player row col (m # ms) =
     (isJump board player row col m
      \<and> (case execute (clone board) row col m of
            Inl e \<Rightarrow> False
          | Inr newBoard \<Rightarrow> jumpChain newBoard player (toRow m) (toCol m) ms))"

definition promotionBoard :: Board where
  "promotionBoard =
     setPiece (setPiece (setPiece emptyBoard
       5 2 (Some \<lparr>pplayer = Red, ptype = PieceType.Regular\<rparr>))
       6 3 (Some \<lparr>pplayer = Black, ptype = PieceType.Regular\<rparr>))
       6 5 (Some \<lparr>pplayer = Black, ptype = PieceType.Regular\<rparr>)"

text \<open>
  A grid in which the cells (6, 1) and (2, 3) hold the same object, a regular Red piece
  (what two calls of \<open>setPiece\<close> with one piece make), with a regular Black piece at
  (1, 2) and a Red king at (6, 5).
\<close>

definition twinBoard :: RefBoard where
  "twinBoard =
     setPieceRef (setPieceRef (setPieceRef (setPieceRef emptyRefBoard
       6 1 (Some 0)) 2 3 (Some 0)) 1 2 (Some 1)) 6 5 (Some 2)"

definition twinStore :: store where
  "twinStore = (\<lambda>piece.
     if piece = 0 then \<lparr>pplayer = Red, ptype = PieceType.Regular\<rparr>
     else if piece = 1 then \<lparr>pplayer = Black, ptype = PieceType.Regular\<rparr>
     else \<lparr>pplayer = Red, ptype = King\<rparr>)"

text \<open>
  One round of the inner loop of \<open>clone\<close>, and what holds of the copy when the loops
  have been through the cells \<open>visited\<close>: the old objects are as they were, every reference of the
  copy is new and stands for a copy of the piece of that cell, every piece of a visited
  cell has been copied, and no object sits in two cells.
\<close>

definition copyCell ::
  "RefBoard \<Rightarrow> int \<times> int \<Rightarrow> store \<times> ref \<times> RefBoard \<Rightarrow> store \<times> ref \<times> RefBoard" where
  "copyCell board = (\<lambda>(row, col) (store, next, newBoard).
     case refGrid board row col of
       Some piece \<Rightarrow>
         (store(next := store piece), Suc next, setRefCell newBoard row col (Some next))
     | None \<Rightarrow> (store, next, newBoard))"

definition copied ::
  "store \<Rightarrow> ref \<Rightarrow> RefBoard \<Rightarrow> (int \<times> int) set \<Rightarrow> store \<times> ref \<times> RefBoard \<Rightarrow> bool" where
  "copied store0 next0 board visited = (\<lambda>(store, next, newBoard).
     next0 \<le> next
     \<and> (\<forall>piece < next0. store piece = store0 piece)
     \<and> (\<forall>row col copy. refGrid newBoard row col = Some copy \<longrightarrow>
          next0 \<le> copy \<and> copy < next \<and> (row, col) \<in> visited
          \<and> (\<exists>piece. refGrid board row col = Some piece \<and> store copy = store0 piece))
     \<and> (\<forall>row col piece. (row, col) \<in> visited \<and> refGrid board row col = Some piece \<longrightarrow>
          refGrid newBoard row col \<noteq> None)
     \<and> unshared newBoard)"

text \<open>
  The move of a search result; a position of the repository's tests in which Red cannot
  move; a position with a Red king in the corner at \<open>redKing\<close>, a Black king at
  \<open>blackKing\<close> and a Black piece that cannot move; a quiet step as a \<open>PieceMove\<close>.
\<close>

definition candidate :: "SearchResult \<Rightarrow> PieceMove" where
  "candidate r = \<lparr>fromRow = fromRow r, fromCol = fromCol r, move = move r\<rparr>"

definition blockedBoard :: Board where
  "blockedBoard = setPiece emptyBoard 7 0 (Some \<lparr>pplayer = Red, ptype = PieceType.Regular\<rparr>)"

definition cycleBoard :: "int \<times> int \<Rightarrow> int \<times> int \<Rightarrow> Board" where
  "cycleBoard redKing blackKing =
     setPiece (setPiece (setPiece emptyBoard
       (fst redKing) (snd redKing) (Some \<lparr>pplayer = Red, ptype = King\<rparr>))
       0 5 (Some \<lparr>pplayer = Black, ptype = PieceType.Regular\<rparr>))
       (fst blackKing) (snd blackKing) (Some \<lparr>pplayer = Black, ptype = King\<rparr>)"

definition step :: "int \<Rightarrow> int \<Rightarrow> int \<Rightarrow> int \<Rightarrow> PieceMove" where
  "step fr fc tr tc = \<lparr>fromRow = fr, fromCol = fc,
     move = \<lparr>toRow = tr, toCol = tc, mtype = MoveType.Regular, capturedRow = None, capturedCol = None\<rparr>\<rparr>"

text \<open>
  A position with two regular pieces a side, in which Red has four moves and no side can
  capture at once; and the position that it becomes after Red's step from (2, 1) to (3, 0)
  and Black's step from (5, 4) to (4, 3).
\<close>

definition skirmishBoard :: Board where
  "skirmishBoard =
     setPiece (setPiece (setPiece (setPiece emptyBoard
       2 1 (Some \<lparr>pplayer = Red, ptype = PieceType.Regular\<rparr>))
       2 3 (Some \<lparr>pplayer = Red, ptype = PieceType.Regular\<rparr>))
       5 2 (Some \<lparr>pplayer = Black, ptype = PieceType.Regular\<rparr>))
       5 4 (Some \<lparr>pplayer = Black, ptype = PieceType.Regular\<rparr>)"

definition skirmishNode :: Board where
  "skirmishNode =
     setPiece (setPiece (setPiece (setPiece emptyBoard
       3 0 (Some \<lparr>pplayer = Red, ptype = PieceType.Regular\<rparr>))
       2 3 (Some \<lparr>pplayer = Red, ptype = PieceType.Regular\<rparr>))
       5 2 (Some \<lparr>pplayer = Black, ptype = PieceType.Regular\<rparr>))
       4 3 (Some \<lparr>pplayer = Black, ptype = PieceType.Regular\<rparr>)"

text \<open>
  How a value \<open>v\<close> returned for the window \<open>(alpha, beta)\<close> relates to the value
  \<open>full\<close> of the unpruned traversal: exact inside the window, a bound on the far side
  outside it. \<open>childOk\<close> says so of the recursive calls on the child that a move leads to.
\<close>

definition agrees :: "'a::linorder \<Rightarrow> 'a \<Rightarrow> 'a \<Rightarrow> 'a \<Rightarrow> bool" where
  "agrees alpha beta v full =
     ((v \<le> alpha \<longrightarrow> full \<le> v) \<and> (beta \<le> v \<longrightarrow> v \<le> full) \<and> (alpha < v \<and> v < beta \<longrightarrow> v = full))"

definition childOk ::
  "(Board \<Rightarrow> number \<Rightarrow> number \<Rightarrow> error + number) \<Rightarrow> (Board \<Rightarrow> error + number) \<Rightarrow> Board \<Rightarrow> PieceMove \<Rightarrow> bool" where
  "childOk rec recF board pm =
     (\<exists>nb f. execute (clone board) (fromRow pm) (fromCol pm) (move pm) = Inr nb
        \<and> recF nb = Inr f \<and> f \<noteq> Infinity \<and> f \<noteq> NegInfinity
        \<and> (\<forall>a b. a < b \<longrightarrow> (\<exists>v. rec nb a b = Inr v \<and> agrees a b v f)))"

section \<open>Properties of the board\<close>

text \<open>
  The two guarded writes, \<open>setPiece\<close> and \<open>removePiece\<close>, called with a row or a
  column outside 0..7 return the board unchanged and raise nothing.
\<close>

lemma guarded_writes_ignored:
  "\<not> (inRange row \<and> inRange col) \<Longrightarrow>
     setPiece board row col piece = board \<and> removePiece board row col = board"
  by (auto simp: setPiece_def removePiece_def inRange_def)

text \<open>
  \<open>movePiece\<close> has no range check. It returns the board unchanged when the source row
  exists and the source cell is empty, whatever the destination, and it raises nothing when
  both rows exist.
\<close>

lemma movePiece_in_range:
  "(inRange fr \<and> grid board fr fc = None \<longrightarrow> movePiece board fr fc tr tc = Inr board)
   \<and> (inRange fr \<and> inRange tr \<longrightarrow> (\<exists>board'. movePiece board fr fc tr tc = Inr board'))"
  by (auto simp: movePiece_def split: option.splits)

text \<open>
  Claim C5 fails in the code for \<open>movePiece\<close>, the one write of \<open>Board\<close> without
  the range check of \<open>setPiece\<close>, \<open>removePiece\<close> and \<open>getPieceAt\<close>. On the
  starting board a move from the missing row 8 raises a \<open>TypeError\<close>; the move of the
  piece at (2, 1) to the missing row 8 raises one too (after the source cell has been
  cleared); and the move of that piece to column 9 of row 3 raises nothing and changes the
  board: the piece leaves (2, 1) for a cell that no read of the board reaches, so Red is
  left with 11 of its 12 pieces.
\<close>

theorem movePiece_out_of_range:
  "\<not> inRange 8 \<and> \<not> inRange 9
   \<and> movePiece initialBoard 8 1 3 2 = Inl TypeError
   \<and> movePiece initialBoard 2 1 8 2 = Inl TypeError
   \<and> (\<exists>board'. movePiece initialBoard 2 1 3 9 = Inr board'
        \<and> getPieceAt initialBoard 2 1 = Some \<lparr>pplayer = Red, ptype = PieceType.Regular\<rparr>
        \<and> getPieceAt board' 2 1 = None
        \<and> grid board' 3 9 = Some \<lparr>pplayer = Red, ptype = PieceType.Regular\<rparr>
        \<and> length (getPieces initialBoard Red) = 12
        \<and> length (getPieces board' Red) = 11)"
proof -
  let ?piece = "\<lparr>pplayer = Red, ptype = PieceType.Regular\<rparr>"
  let ?board' = "setCell (setCell initialBoard 2 1 None) 3 9 (Some ?piece)"
  have r: "\<not> inRange 8" "\<not> inRange 9" by (simp_all add: inRange_def)
  have a: "movePiece initialBoard 8 1 3 2 = Inl TypeError"
    "movePiece initialBoard 2 1 8 2 = Inl TypeError"
    by (simp_all add: inRange_def movePiece_def initialBoard_def createInitialBoard_def)
  have b: "movePiece initialBoard 2 1 3 9 = Inr ?board'"
    by (simp add: inRange_def movePiece_def initialBoard_def createInitialBoard_def)
  have c: "getPieceAt initialBoard 2 1 = Some ?piece" "getPieceAt ?board' 2 1 = None"
    "grid ?board' 3 9 = Some ?piece"
    by (simp_all add: getPieceAt_def setCell_def initialBoard_def createInitialBoard_def)
  have d: "length (getPieces initialBoard Red) = 12" "length (getPieces ?board' Red) = 11"
    by code_simp+
  from r a b c d show ?thesis by simp
qed

text \<open>What \<open>movePiece\<close> writes when both rows exist and the source holds a piece.\<close>

lemma movePiece_lands:
  assumes "inRange fr" "inRange tr" "grid board fr fc = Some piece"
  shows "movePiece board fr fc tr tc =
     Inr (setCell (setCell board fr fc None) tr tc
       (Some (if ptype piece = PieceType.Regular
                 \<and> (pplayer piece = Red \<and> tr = 7 \<or> pplayer piece = Black \<and> tr = 0)
              then piece\<lparr>ptype := King\<rparr> else piece)))"
  using assms by (simp add: movePiece_def)

subsection \<open>Piece objects\<close>

text \<open>
  Reading through the references commutes with the guarded operations; on a board on which
  no object sits in two cells it commutes with \<open>movePiece\<close> and \<open>Move.execute\<close>
  as well, and these keep the objects of the cells distinct.
\<close>

lemma getPieceAt_deref:
  "getPieceAt (deref store board) row col = map_option store (getPieceAtRef board row col)"
  by (simp add: getPieceAt_def getPieceAtRef_def deref_def)

lemma setPiece_deref:
  "setPiece (deref store board) row col (map_option store piece) =
     deref store (setPieceRef board row col piece)"
  by (auto simp: setPiece_def setPieceRef_def deref_def setCell_def setRefCell_def fun_eq_iff)

lemma removePiece_deref:
  "removePiece (deref store board) row col = deref store (removePieceRef board row col)"
  by (auto simp: removePiece_def removePieceRef_def deref_def setCell_def setRefCell_def fun_eq_iff)

lemma unshared_removePieceRef: "unshared board \<Longrightarrow> unshared (removePieceRef board row col)"
  unfolding unshared_def removePieceRef_def setRefCell_def
  by (simp split: if_splits) metis

lemma deref_moved:
  "deref store (setRefCell (setRefCell board fr fc None) tr tc (Some piece)) =
     setCell (setCell (deref store board) fr fc None) tr tc (Some (store piece))"
  by (simp add: deref_def setCell_def setRefCell_def fun_eq_iff)

lemma deref_promoted:
  assumes "\<And>row col. refGrid board row col = Some piece \<Longrightarrow> row = fr \<and> col = fc"
  shows "setCell (setCell (deref (store(piece := v)) board) fr fc None) tr tc x =
     setCell (setCell (deref store board) fr fc None) tr tc x"
proof -
  have "map_option (store(piece := v)) (refGrid board row col) = map_option store (refGrid board row col)"
    if "row \<noteq> fr \<or> col \<noteq> fc" for row col
  proof (cases "refGrid board row col")
    case None
    then show ?thesis by simp
  next
    case (Some q)
    with assms [of row col] that have "q \<noteq> piece" by blast
    with Some show ?thesis by simp
  qed
  then show ?thesis
    by (simp add: deref_def setCell_def fun_eq_iff)
qed

lemma movePiece_deref:
  assumes "unshared board"
  shows "movePiece (deref store board) fr fc tr tc =
     map_sum id (\<lambda>(store', board'). deref store' board')
       (movePieceRef store board fr fc tr tc)"
proof (cases "refGrid board fr fc")
  case None
  then show ?thesis by (simp add: movePiece_def movePieceRef_def deref_def)
next
  case (Some piece)
  have only: "row = fr \<and> col = fc" if "refGrid board row col = Some piece" for row col
    using assms Some that unfolding unshared_def by blast
  have g: "grid (deref store board) fr fc = Some (store piece)"
    using Some by (simp add: deref_def)
  show ?thesis
    unfolding movePiece_def movePieceRef_def
    by (simp add: g Some deref_moved deref_promoted [OF only])
qed

lemma unshared_movePieceRef:
  assumes "unshared board"
    and "movePieceRef store board fr fc tr tc = Inr (store', board')"
  shows "unshared board'"
proof (cases "refGrid board fr fc")
  case None
  with assms show ?thesis by (simp add: movePieceRef_def split: if_splits)
next
  case (Some piece)
  have only: "row = fr \<and> col = fc" if "refGrid board row col = Some piece" for row col
    using assms(1) Some that unfolding unshared_def by blast
  from assms(2) Some have b: "board' =
      setRefCell (setRefCell board fr fc None) tr tc (Some piece)"
    by (auto simp: movePieceRef_def split: if_splits)
  have cell: "row = tr \<and> col = tc \<and> p = piece
      \<or> (row \<noteq> tr \<or> col \<noteq> tc) \<and> p \<noteq> piece \<and> refGrid board row col = Some p"
    if "refGrid board' row col = Some p" for row col p
  proof (cases "row = tr \<and> col = tc")
    case True
    with that show ?thesis by (simp add: b setRefCell_def)
  next
    case False
    with that have "(row \<noteq> fr \<or> col \<noteq> fc) \<and> refGrid board row col = Some p"
      by (auto simp: b setRefCell_def split: if_splits)
    with False only [of row col] show ?thesis by blast
  qed
  show ?thesis
    unfolding unshared_def
  proof (intro allI impI)
    fix row col row' col' p
    assume "refGrid board' row col = Some p \<and> refGrid board' row' col' = Some p"
    with cell [of row col p] cell [of row' col' p] assms(1)
    show "row = row' \<and> col = col'"
      unfolding unshared_def by blast
  qed
qed

lemma execute_deref:
  assumes "unshared board"
  shows "execute (deref store board) fr fc m =
     map_sum id (\<lambda>(store', board'). deref store' board') (executeRef store board fr fc m)"
proof -
  define board1 where "board1 =
    (case (capturedRow m, capturedCol m) of
       (Some cr, Some cc) \<Rightarrow> if mtype m = MoveType.Capture then removePieceRef board cr cc else board
     | _ \<Rightarrow> board)"
  have u: "unshared board1"
    using assms by (auto simp: board1_def unshared_removePieceRef split: option.splits)
  have d: "(case (capturedRow m, capturedCol m) of
       (Some cr, Some cc) \<Rightarrow>
         if mtype m = MoveType.Capture then removePiece (deref store board) cr cc else deref store board
     | _ \<Rightarrow> deref store board) = deref store board1"
    by (auto simp: board1_def removePiece_deref split: option.splits)
  show ?thesis
    unfolding execute_def executeRef_def Let_def d board1_def [symmetric]
    by (rule movePiece_deref [OF u])
qed

lemma unshared_executeRef:
  assumes "unshared board" and "executeRef store board fr fc m = Inr (store', board')"
  shows "unshared board'"
proof -
  define board1 where "board1 =
    (case (capturedRow m, capturedCol m) of
       (Some cr, Some cc) \<Rightarrow> if mtype m = MoveType.Capture then removePieceRef board cr cc else board
     | _ \<Rightarrow> board)"
  have u: "unshared board1"
    using assms(1) by (auto simp: board1_def unshared_removePieceRef split: option.splits)
  from assms(2) have "movePieceRef store board1 fr fc (toRow m) (toCol m) = Inr (store', board')"
    by (simp add: executeRef_def board1_def)
  with u show ?thesis by (rule unshared_movePieceRef)
qed

text \<open>
  \<open>clone\<close> yields a board on which no object sits in two cells, made of new objects
  only, which reads as the clone of what the original reads as. So a move applied to a
  clone, which is how \<open>findCaptureChains\<close> and the search apply every move, is the
  \<open>execute\<close> of the first part on the \<open>clone\<close> of the first part, whatever the
  original board shares; and it leaves the original board as it was.
\<close>

lemma fold_rows:
  "fold (\<lambda>row. fold (\<lambda>col. f (row, col)) cols) rows = fold f (List.product rows cols)"
proof (induction rows)
  case Nil
  then show ?case by simp
next
  case (Cons row rows)
  have "fold (\<lambda>col. f (row, col)) cols = fold f (map (Pair row) cols)"
    by (simp add: fold_map comp_def)
  with Cons show ?case by simp
qed

lemma cloneRef_fold:
  "cloneRef store next board =
     fold (copyCell board) (List.product [0..7] [0..7]) (store, next, emptyRefBoard)"
  unfolding cloneRef_def fold_rows [symmetric] copyCell_def by simp

lemma copied_step:
  assumes "copied store0 next0 board visited state" and "allocated next0 board"
    and "cell \<notin> visited"
  shows "copied store0 next0 board (insert cell visited) (copyCell board cell state)"
proof -
  obtain row col where cell: "cell = (row, col)" by (cases cell)
  obtain store "next" newBoard where state: "state = (store, next, newBoard)" by (cases state)
  from assms(1) have inv:
    "next0 \<le> next"
    "\<And>piece. piece < next0 \<Longrightarrow> store piece = store0 piece"
    "\<And>r c copy. refGrid newBoard r c = Some copy \<Longrightarrow>
       next0 \<le> copy \<and> copy < next \<and> (r, c) \<in> visited
       \<and> (\<exists>piece. refGrid board r c = Some piece \<and> store copy = store0 piece)"
    "\<And>r c piece. (r, c) \<in> visited \<Longrightarrow> refGrid board r c = Some piece \<Longrightarrow>
       refGrid newBoard r c \<noteq> None"
    "unshared newBoard"
    unfolding copied_def state by auto
  show ?thesis
  proof (cases "refGrid board row col")
    case None
    then have same: "copyCell board cell state = state"
      by (simp add: copyCell_def cell state)
    show ?thesis
      unfolding same unfolding state copied_def
      using inv None cell by (auto dest: inv(3))
  next
    case (Some piece)
    then have new: "copyCell board cell state =
        (store(next := store piece), Suc next, setRefCell newBoard row col (Some next))"
      by (simp add: copyCell_def cell state)
    from Some assms(2) have p: "piece < next0" unfolding allocated_def by blast
    have 1: "next0 \<le> Suc next" using inv(1) by simp
    have 2: "(store(next := store piece)) q = store0 q" if "q < next0" for q
      using that inv(1,2) by simp
    have 3: "next0 \<le> copy \<and> copy < Suc next \<and> (r, c) \<in> insert cell visited
        \<and> (\<exists>q. refGrid board r c = Some q \<and> (store(next := store piece)) copy = store0 q)"
      if "refGrid (setRefCell newBoard row col (Some next)) r c = Some copy" for r c copy
    proof (cases "r = row \<and> c = col")
      case True
      with that have "copy = next" by (simp add: setRefCell_def)
      with True Some inv(1) inv(2) [OF p] cell show ?thesis by simp
    next
      case False
      with that have "refGrid newBoard r c = Some copy" by (auto simp: setRefCell_def split: if_splits)
      from inv(3) [OF this] show ?thesis by auto
    qed
    have 4: "refGrid (setRefCell newBoard row col (Some next)) r c \<noteq> None"
      if "(r, c) \<in> insert cell visited" "refGrid board r c = Some q" for r c q
      using that inv(4) [of r c q] cell by (auto simp: setRefCell_def)
    have 5: "unshared (setRefCell newBoard row col (Some next))"
      unfolding unshared_def
    proof (intro allI impI)
      fix r c r' c' q
      assume a: "refGrid (setRefCell newBoard row col (Some next)) r c = Some q
        \<and> refGrid (setRefCell newBoard row col (Some next)) r' c' = Some q"
      have old: "q < next \<and> refGrid newBoard x y = Some q"
        if "refGrid (setRefCell newBoard row col (Some next)) x y = Some q" "\<not> (x = row \<and> y = col)"
        for x y
      proof -
        from that have "refGrid newBoard x y = Some q" by (auto simp: setRefCell_def split: if_splits)
        with inv(3) [OF this] show ?thesis by simp
      qed
      have here: "q = next" if "refGrid (setRefCell newBoard row col (Some next)) row col = Some q"
        using that by (simp add: setRefCell_def)
      show "r = r' \<and> c = c'"
      proof (cases "r = row \<and> c = col")
        case True
        with a here have q: "q = next" by blast
        show ?thesis
        proof (cases "r' = row \<and> c' = col")
          case True
          with \<open>r = row \<and> c = col\<close> show ?thesis by simp
        next
          case False
          with a old [of r' c'] q show ?thesis by simp
        qed
      next
        case False
        with a old [of r c] have o: "q < next" "refGrid newBoard r c = Some q" by simp_all
        show ?thesis
        proof (cases "r' = row \<and> c' = col")
          case True
          with a here o show ?thesis by auto
        next
          case False
          with a old [of r' c'] have "refGrid newBoard r' c' = Some q" by simp
          with o(2) inv(5) show ?thesis unfolding unshared_def by blast
        qed
      qed
    qed
    show ?thesis
      unfolding new copied_def using 1 2 3 4 5 by (simp del: fun_upd_apply) blast
  qed
qed

lemma copied_fold:
  assumes "allocated next0 board" and "distinct cells"
    and "copied store0 next0 board visited state" and "set cells \<inter> visited = {}"
  shows "copied store0 next0 board (visited \<union> set cells) (fold (copyCell board) cells state)"
  using assms(2-)
proof (induction cells arbitrary: visited state)
  case Nil
  then show ?case by simp
next
  case (Cons cell cells)
  from Cons.prems have "cell \<notin> visited" by simp
  from copied_step [OF Cons.prems(2) assms(1) this]
  have "copied store0 next0 board (insert cell visited) (copyCell board cell state)" .
  from Cons.IH [OF _ this] Cons.prems(1,3)
  show ?case by simp
qed

lemma cloneRef_copied:
  assumes "allocated next board"
  shows "copied store next board {(row, col). inRange row \<and> inRange col} (cloneRef store next board)"
proof -
  have cells: "set (List.product [0..7] [0..7]) = {(row, col). inRange row \<and> inRange col}"
    by (auto simp: inRange_def)
  have "distinct (List.product [0..7] [0..7])"
    by (intro distinct_product) simp_all
  moreover have "copied store next board {} (store, next, emptyRefBoard)"
    by (simp add: copied_def emptyRefBoard_def unshared_def)
  ultimately have "copied store next board ({} \<union> set (List.product [0..7] [0..7]))
      (fold (copyCell board) (List.product [0..7] [0..7]) (store, next, emptyRefBoard))"
    by (intro copied_fold [OF assms]) simp_all
  then show ?thesis unfolding cloneRef_fold cells [symmetric] by simp
qed

lemma cloneRef_clone:
  assumes "allocated next board" and "cloneRef store next board = (store', next', newBoard)"
  shows "deref store' newBoard = clone (deref store board)"
    and "unshared newBoard"
    and "allocated next' newBoard"
    and "\<forall>row col copy. refGrid newBoard row col = Some copy \<longrightarrow> next \<le> copy"
    and "\<forall>piece < next. store' piece = store piece"
proof -
  from cloneRef_copied [OF assms(1), of store] assms(2) have inv:
    "\<And>piece. piece < next \<Longrightarrow> store' piece = store piece"
    "\<And>r c copy. refGrid newBoard r c = Some copy \<Longrightarrow>
       next \<le> copy \<and> copy < next' \<and> inRange r \<and> inRange c
       \<and> (\<exists>piece. refGrid board r c = Some piece \<and> store' copy = store piece)"
    "\<And>r c piece. inRange r \<Longrightarrow> inRange c \<Longrightarrow> refGrid board r c = Some piece \<Longrightarrow>
       refGrid newBoard r c \<noteq> None"
    "unshared newBoard"
    unfolding copied_def by auto
  show "unshared newBoard" by (rule inv(4))
  show "allocated next' newBoard" unfolding allocated_def using inv(2) by blast
  show "\<forall>row col copy. refGrid newBoard row col = Some copy \<longrightarrow> next \<le> copy"
    using inv(2) by blast
  show "\<forall>piece < next. store' piece = store piece" using inv(1) by blast
  have "grid (deref store' newBoard) row col = grid (clone (deref store board)) row col" for row col
  proof (cases "refGrid newBoard row col")
    case None
    with inv(3) [of row col] show ?thesis
      by (cases "refGrid board row col") (auto simp: inRange_def deref_def clone_def)
  next
    case (Some copy)
    from inv(2) [OF this] Some show ?thesis by (auto simp: inRange_def deref_def clone_def)
  qed
  then have "grid (deref store' newBoard) = grid (clone (deref store board))" by (intro ext)
  then show "deref store' newBoard = clone (deref store board)"
    by (intro Board.equality) simp_all
qed

lemma movePieceRef_frame:
  assumes "movePieceRef store board fr fc tr tc = Inr (store', board')"
    and "refGrid board fr fc \<noteq> Some piece"
  shows "store' piece = store piece"
  using assms by (auto simp: movePieceRef_def split: if_splits option.splits)

lemma executeRef_frame:
  assumes "executeRef store board fr fc m = Inr (store', board')"
    and "refGrid board fr fc \<noteq> Some piece"
  shows "store' piece = store piece"
proof -
  define board1 where "board1 =
    (case (capturedRow m, capturedCol m) of
       (Some cr, Some cc) \<Rightarrow> if mtype m = MoveType.Capture then removePieceRef board cr cc else board
     | _ \<Rightarrow> board)"
  have "refGrid board1 fr fc = refGrid board fr fc \<or> refGrid board1 fr fc = None"
    by (auto simp: board1_def removePieceRef_def setRefCell_def split: option.splits prod.splits)
  with assms(2) have "refGrid board1 fr fc \<noteq> Some piece" by auto
  moreover from assms(1) have "movePieceRef store board1 fr fc (toRow m) (toCol m) = Inr (store', board')"
    by (simp add: executeRef_def board1_def)
  ultimately show ?thesis by (intro movePieceRef_frame)
qed

lemma execute_clone_deref:
  assumes "allocated next board" and "cloneRef store next board = (store', next', newBoard)"
  shows "execute (clone (deref store board)) fr fc m =
      map_sum id (\<lambda>(store'', board''). deref store'' board'') (executeRef store' newBoard fr fc m)"
    and "executeRef store' newBoard fr fc m = Inr (store'', board'') \<Longrightarrow>
      deref store'' board = deref store board \<and> unshared board''"
proof -
  note c = cloneRef_clone [OF assms]
  show "execute (clone (deref store board)) fr fc m =
      map_sum id (\<lambda>(store'', board''). deref store'' board'') (executeRef store' newBoard fr fc m)"
    using execute_deref [OF c(2), of store' fr fc m] by (simp add: c(1))
  assume e: "executeRef store' newBoard fr fc m = Inr (store'', board'')"
  have "store'' piece = store piece" if "refGrid board row col = Some piece" for row col piece
  proof -
    from that assms(1) have p: "piece < next" unfolding allocated_def by blast
    with c(4) have "refGrid newBoard fr fc \<noteq> Some piece" by fastforce
    from executeRef_frame [OF e this] c(5) p show ?thesis by simp
  qed
  then have "map_option store'' (refGrid board row col) = map_option store (refGrid board row col)"
    for row col
    by (cases "refGrid board row col") simp_all
  then have "deref store'' board = deref store board" by (simp add: deref_def)
  with unshared_executeRef [OF c(2) e] show "deref store'' board = deref store board \<and> unshared board''"
    by simp
qed

lemma movePieceRef_lands:
  assumes "inRange fr" "inRange tr" "refGrid board fr fc = Some piece"
  shows "movePieceRef store board fr fc tr tc =
     Inr (if ptype (store piece) = PieceType.Regular
             \<and> (pplayer (store piece) = Red \<and> tr = 7 \<or> pplayer (store piece) = Black \<and> tr = 0)
          then store(piece := (store piece)\<lparr>ptype := King\<rparr>) else store,
          setRefCell (setRefCell board fr fc None) tr tc (Some piece))"
  using assms by (simp add: movePieceRef_def)

text \<open>
  Claim C6. Applying a move whose source cell holds a piece object (and which does not jump
  its own source square) puts that object into the destination cell. The object keeps its
  player; a regular Red piece landing on row 7 and a regular Black piece landing on row 0
  are kings after the move; landing on any other row leaves the rank unchanged; a king is
  unchanged wherever it lands. No other object changes, and every other cell keeps its
  reference or is cleared. The promotion is an assignment to the object: a second cell
  that holds the same object shows the king as well.
\<close>

theorem execute_promotion:
  assumes "inRange fr" and "inRange (toRow m)"
    and "refGrid board fr fc = Some piece"
    and "capturedRow m \<noteq> Some fr \<or> capturedCol m \<noteq> Some fc"
  shows "\<exists>store' board'. executeRef store board fr fc m = Inr (store', board')
     \<and> refGrid board' (toRow m) (toCol m) = Some piece
     \<and> pplayer (store' piece) = pplayer (store piece)
     \<and> (ptype (store piece) = PieceType.Regular \<and> pplayer (store piece) = Red \<and> toRow m = 7 \<longrightarrow>
          ptype (store' piece) = King)
     \<and> (ptype (store piece) = PieceType.Regular \<and> pplayer (store piece) = Black \<and> toRow m = 0 \<longrightarrow>
          ptype (store' piece) = King)
     \<and> (\<not> (pplayer (store piece) = Red \<and> toRow m = 7)
          \<and> \<not> (pplayer (store piece) = Black \<and> toRow m = 0) \<longrightarrow>
          ptype (store' piece) = ptype (store piece))
     \<and> (ptype (store piece) = King \<longrightarrow> store' piece = store piece)
     \<and> (\<forall>other. other \<noteq> piece \<longrightarrow> store' other = store other)
     \<and> (\<forall>row col. (row, col) \<noteq> (toRow m, toCol m) \<longrightarrow>
          refGrid board' row col = refGrid board row col \<or> refGrid board' row col = None)"
proof -
  define board1 where "board1 =
    (case (capturedRow m, capturedCol m) of
       (Some cr, Some cc) \<Rightarrow> if mtype m = MoveType.Capture then removePieceRef board cr cc else board
     | _ \<Rightarrow> board)"
  have src: "refGrid board1 fr fc = Some piece"
    using assms(3,4)
    by (auto simp: board1_def removePieceRef_def setRefCell_def split: option.splits prod.splits)
  have others: "refGrid board1 row col = refGrid board row col \<or> refGrid board1 row col = None"
    for row col
    by (auto simp: board1_def removePieceRef_def setRefCell_def split: option.splits prod.splits)
  have "executeRef store board fr fc m =
      movePieceRef store board1 fr fc (toRow m) (toCol m)"
    by (simp add: executeRef_def board1_def)
  also note movePieceRef_lands [OF assms(1,2) src, of store "toCol m"]
  finally show ?thesis
    using others by (auto simp: setRefCell_def)
qed

theorem execute_promotion_witness:
  "inRange 6 \<and> inRange 7 \<and> inRange 2 \<and> inRange 3 \<and> inRange 1 \<and> inRange 0
   \<and> refGrid twinBoard 6 1 = Some 0 \<and> refGrid twinBoard 2 3 = Some 0
   \<and> refGrid twinBoard 1 2 = Some 1 \<and> refGrid twinBoard 6 5 = Some 2
   \<and> twinStore 0 = \<lparr>pplayer = Red, ptype = PieceType.Regular\<rparr>
   \<and> twinStore 1 = \<lparr>pplayer = Black, ptype = PieceType.Regular\<rparr>
   \<and> twinStore 2 = \<lparr>pplayer = Red, ptype = King\<rparr>
   \<and> (\<exists>store' board'. executeRef twinStore twinBoard 6 1 (move (step 6 1 7 2)) = Inr (store', board')
        \<and> refGrid board' 7 2 = Some 0 \<and> refGrid board' 2 3 = Some 0
        \<and> store' 0 = \<lparr>pplayer = Red, ptype = King\<rparr>
        \<and> store' 1 = twinStore 1 \<and> store' 2 = twinStore 2
        \<and> getPieceAt (deref store' board') 7 2 = Some \<lparr>pplayer = Red, ptype = King\<rparr>
        \<and> getPieceAt (deref store' board') 2 3 = Some \<lparr>pplayer = Red, ptype = King\<rparr>
        \<and> getPieceAt (deref store' board') 6 1 = None)
   \<and> (\<exists>store' board'. executeRef twinStore twinBoard 1 2 (move (step 1 2 0 1)) = Inr (store', board')
        \<and> refGrid board' 0 1 = Some 1 \<and> store' 1 = \<lparr>pplayer = Black, ptype = King\<rparr>
        \<and> store' 0 = twinStore 0)
   \<and> (\<exists>store' board'. executeRef twinStore twinBoard 2 3 (move (step 2 3 3 4)) = Inr (store', board')
        \<and> refGrid board' 3 4 = Some 0 \<and> store' 0 = \<lparr>pplayer = Red, ptype = PieceType.Regular\<rparr>)
   \<and> (\<exists>store' board'. executeRef twinStore twinBoard 6 5 (move (step 6 5 7 6)) = Inr (store', board')
        \<and> refGrid board' 7 6 = Some 2 \<and> store' 2 = \<lparr>pplayer = Red, ptype = King\<rparr>)"
proof -
  have r: "inRange 6" "inRange 7" "inRange 2" "inRange 3" "inRange 1" "inRange 0"
    by (simp_all add: inRange_def)
  have g: "refGrid twinBoard 6 1 = Some 0" "refGrid twinBoard 2 3 = Some 0"
    "refGrid twinBoard 1 2 = Some 1" "refGrid twinBoard 6 5 = Some 2"
    by (simp_all add: twinBoard_def setPieceRef_def setRefCell_def emptyRefBoard_def)
  have s: "twinStore 0 = \<lparr>pplayer = Red, ptype = PieceType.Regular\<rparr>"
    "twinStore 1 = \<lparr>pplayer = Black, ptype = PieceType.Regular\<rparr>"
    "twinStore 2 = \<lparr>pplayer = Red, ptype = King\<rparr>"
    by (simp_all add: twinStore_def)
  have m: "toRow (move (step fr fc tr tc)) = tr" "toCol (move (step fr fc tr tc)) = tc"
    "capturedRow (move (step fr fc tr tc)) = None" for fr fc tr tc
    by (simp_all add: step_def)
  have h1: "inRange 6" "inRange (toRow (move (step 6 1 7 2)))" "refGrid twinBoard 6 1 = Some 0"
    "capturedRow (move (step 6 1 7 2)) \<noteq> Some 6 \<or> capturedCol (move (step 6 1 7 2)) \<noteq> Some 1"
    by (simp_all add: r g m)
  from execute_promotion [OF h1, of twinStore]
  obtain s1 b1 where e1: "executeRef twinStore twinBoard 6 1 (move (step 6 1 7 2)) = Inr (s1, b1)"
    and p1: "refGrid b1 (toRow (move (step 6 1 7 2))) (toCol (move (step 6 1 7 2))) = Some 0"
      "pplayer (s1 0) = pplayer (twinStore 0)"
      "ptype (twinStore 0) = PieceType.Regular \<and> pplayer (twinStore 0) = Red \<and> toRow (move (step 6 1 7 2)) = 7 \<longrightarrow>
         ptype (s1 0) = King"
      "ptype (twinStore 0) = PieceType.Regular \<and> pplayer (twinStore 0) = Black \<and> toRow (move (step 6 1 7 2)) = 0 \<longrightarrow>
         ptype (s1 0) = King"
      "\<not> (pplayer (twinStore 0) = Red \<and> toRow (move (step 6 1 7 2)) = 7)
         \<and> \<not> (pplayer (twinStore 0) = Black \<and> toRow (move (step 6 1 7 2)) = 0) \<longrightarrow>
         ptype (s1 0) = ptype (twinStore 0)"
      "ptype (twinStore 0) = King \<longrightarrow> s1 0 = twinStore 0"
      "\<forall>other. other \<noteq> 0 \<longrightarrow> s1 other = twinStore other"
      "\<forall>row col. (row, col) \<noteq> (toRow (move (step 6 1 7 2)), toCol (move (step 6 1 7 2))) \<longrightarrow>
         refGrid b1 row col = refGrid twinBoard row col \<or> refGrid b1 row col = None"
    by blast
  from p1(2,3) have k1: "s1 0 = \<lparr>pplayer = Red, ptype = King\<rparr>"
    by (cases "s1 0") (simp add: s m del: One_nat_def)
  from p1(7) have o1: "s1 1 = twinStore 1" "s1 2 = twinStore 2" by simp_all
  from e1 have c1: "refGrid b1 2 3 = Some 0" "refGrid b1 6 1 = None"
    by (auto simp: executeRef_def movePieceRef_def step_def setRefCell_def g r)
  have d1: "getPieceAt (deref s1 b1) 7 2 = Some \<lparr>pplayer = Red, ptype = King\<rparr>"
    "getPieceAt (deref s1 b1) 2 3 = Some \<lparr>pplayer = Red, ptype = King\<rparr>"
    "getPieceAt (deref s1 b1) 6 1 = None"
    using p1(1) c1 k1 by (simp_all add: getPieceAt_def deref_def m)
  have h2: "inRange 1" "inRange (toRow (move (step 1 2 0 1)))" "refGrid twinBoard 1 2 = Some 1"
    "capturedRow (move (step 1 2 0 1)) \<noteq> Some 1 \<or> capturedCol (move (step 1 2 0 1)) \<noteq> Some 2"
    by (simp_all add: r g m)
  from execute_promotion [OF h2, of twinStore]
  obtain s2 b2 where e2: "executeRef twinStore twinBoard 1 2 (move (step 1 2 0 1)) = Inr (s2, b2)"
    and p2: "refGrid b2 (toRow (move (step 1 2 0 1))) (toCol (move (step 1 2 0 1))) = Some 1"
      "pplayer (s2 1) = pplayer (twinStore 1)"
      "ptype (twinStore 1) = PieceType.Regular \<and> pplayer (twinStore 1) = Red \<and> toRow (move (step 1 2 0 1)) = 7 \<longrightarrow>
         ptype (s2 1) = King"
      "ptype (twinStore 1) = PieceType.Regular \<and> pplayer (twinStore 1) = Black \<and> toRow (move (step 1 2 0 1)) = 0 \<longrightarrow>
         ptype (s2 1) = King"
      "\<not> (pplayer (twinStore 1) = Red \<and> toRow (move (step 1 2 0 1)) = 7)
         \<and> \<not> (pplayer (twinStore 1) = Black \<and> toRow (move (step 1 2 0 1)) = 0) \<longrightarrow>
         ptype (s2 1) = ptype (twinStore 1)"
      "ptype (twinStore 1) = King \<longrightarrow> s2 1 = twinStore 1"
      "\<forall>other. other \<noteq> 1 \<longrightarrow> s2 other = twinStore other"
      "\<forall>row col. (row, col) \<noteq> (toRow (move (step 1 2 0 1)), toCol (move (step 1 2 0 1))) \<longrightarrow>
         refGrid b2 row col = refGrid twinBoard row col \<or> refGrid b2 row col = None"
    by blast
  from p2(2,4) have k2: "s2 1 = \<lparr>pplayer = Black, ptype = King\<rparr>"
    by (cases "s2 1") (simp add: s m del: One_nat_def)
  from p2(7) have o2: "s2 0 = twinStore 0" by simp
  have h3: "inRange 2" "inRange (toRow (move (step 2 3 3 4)))" "refGrid twinBoard 2 3 = Some 0"
    "capturedRow (move (step 2 3 3 4)) \<noteq> Some 2 \<or> capturedCol (move (step 2 3 3 4)) \<noteq> Some 3"
    by (simp_all add: r g m)
  from execute_promotion [OF h3, of twinStore]
  obtain s3 b3 where e3: "executeRef twinStore twinBoard 2 3 (move (step 2 3 3 4)) = Inr (s3, b3)"
    and p3: "refGrid b3 (toRow (move (step 2 3 3 4))) (toCol (move (step 2 3 3 4))) = Some 0"
      "pplayer (s3 0) = pplayer (twinStore 0)"
      "ptype (twinStore 0) = PieceType.Regular \<and> pplayer (twinStore 0) = Red \<and> toRow (move (step 2 3 3 4)) = 7 \<longrightarrow>
         ptype (s3 0) = King"
      "ptype (twinStore 0) = PieceType.Regular \<and> pplayer (twinStore 0) = Black \<and> toRow (move (step 2 3 3 4)) = 0 \<longrightarrow>
         ptype (s3 0) = King"
      "\<not> (pplayer (twinStore 0) = Red \<and> toRow (move (step 2 3 3 4)) = 7)
         \<and> \<not> (pplayer (twinStore 0) = Black \<and> toRow (move (step 2 3 3 4)) = 0) \<longrightarrow>
         ptype (s3 0) = ptype (twinStore 0)"
      "ptype (twinStore 0) = King \<longrightarrow> s3 0 = twinStore 0"
      "\<forall>other. other \<noteq> 0 \<longrightarrow> s3 other = twinStore other"
      "\<forall>row col. (row, col) \<noteq> (toRow (move (step 2 3 3 4)), toCol (move (step 2 3 3 4))) \<longrightarrow>
         refGrid b3 row col = refGrid twinBoard row col \<or> refGrid b3 row col = None"
    by blast
  from p3(2,5) have k3: "s3 0 = \<lparr>pplayer = Red, ptype = PieceType.Regular\<rparr>"
    by (cases "s3 0") (simp add: s m del: One_nat_def)
  have h4: "inRange 6" "inRange (toRow (move (step 6 5 7 6)))" "refGrid twinBoard 6 5 = Some 2"
    "capturedRow (move (step 6 5 7 6)) \<noteq> Some 6 \<or> capturedCol (move (step 6 5 7 6)) \<noteq> Some 5"
    by (simp_all add: r g m)
  from execute_promotion [OF h4, of twinStore]
  obtain s4 b4 where e4: "executeRef twinStore twinBoard 6 5 (move (step 6 5 7 6)) = Inr (s4, b4)"
    and p4: "refGrid b4 (toRow (move (step 6 5 7 6))) (toCol (move (step 6 5 7 6))) = Some 2"
      "pplayer (s4 2) = pplayer (twinStore 2)"
      "ptype (twinStore 2) = PieceType.Regular \<and> pplayer (twinStore 2) = Red \<and> toRow (move (step 6 5 7 6)) = 7 \<longrightarrow>
         ptype (s4 2) = King"
      "ptype (twinStore 2) = PieceType.Regular \<and> pplayer (twinStore 2) = Black \<and> toRow (move (step 6 5 7 6)) = 0 \<longrightarrow>
         ptype (s4 2) = King"
      "\<not> (pplayer (twinStore 2) = Red \<and> toRow (move (step 6 5 7 6)) = 7)
         \<and> \<not> (pplayer (twinStore 2) = Black \<and> toRow (move (step 6 5 7 6)) = 0) \<longrightarrow>
         ptype (s4 2) = ptype (twinStore 2)"
      "ptype (twinStore 2) = King \<longrightarrow> s4 2 = twinStore 2"
      "\<forall>other. other \<noteq> 2 \<longrightarrow> s4 other = twinStore other"
      "\<forall>row col. (row, col) \<noteq> (toRow (move (step 6 5 7 6)), toCol (move (step 6 5 7 6))) \<longrightarrow>
         refGrid b4 row col = refGrid twinBoard row col \<or> refGrid b4 row col = None"
    by blast
  from p4(6) have k4: "s4 2 = \<lparr>pplayer = Red, ptype = King\<rparr>"
    by (simp add: s)
  have "\<exists>store' board'. executeRef twinStore twinBoard 6 1 (move (step 6 1 7 2)) = Inr (store', board')
        \<and> refGrid board' 7 2 = Some 0 \<and> refGrid board' 2 3 = Some 0
        \<and> store' 0 = \<lparr>pplayer = Red, ptype = King\<rparr>
        \<and> store' 1 = twinStore 1 \<and> store' 2 = twinStore 2
        \<and> getPieceAt (deref store' board') 7 2 = Some \<lparr>pplayer = Red, ptype = King\<rparr>
        \<and> getPieceAt (deref store' board') 2 3 = Some \<lparr>pplayer = Red, ptype = King\<rparr>
        \<and> getPieceAt (deref store' board') 6 1 = None"
    using e1 p1(1) c1 k1 o1 d1 by (simp add: m)
  moreover have "\<exists>store' board'. executeRef twinStore twinBoard 1 2 (move (step 1 2 0 1)) = Inr (store', board')
        \<and> refGrid board' 0 1 = Some 1 \<and> store' 1 = \<lparr>pplayer = Black, ptype = King\<rparr>
        \<and> store' 0 = twinStore 0"
    using e2 p2(1) k2 o2 by (simp add: m)
  moreover have "\<exists>store' board'. executeRef twinStore twinBoard 2 3 (move (step 2 3 3 4)) = Inr (store', board')
        \<and> refGrid board' 3 4 = Some 0 \<and> store' 0 = \<lparr>pplayer = Red, ptype = PieceType.Regular\<rparr>"
    using e3 p3(1) k3 by (simp add: m)
  moreover have "\<exists>store' board'. executeRef twinStore twinBoard 6 5 (move (step 6 5 7 6)) = Inr (store', board')
        \<and> refGrid board' 7 6 = Some 2 \<and> store' 2 = \<lparr>pplayer = Red, ptype = King\<rparr>"
    using e4 p4(1) k4 by (simp add: m)
  ultimately show ?thesis using r g s by blast
qed

section \<open>Properties of the move generator\<close>

lemma getDirections_forward:
  "(dr, dc) \<in> set (getDirections player PieceType.Regular) \<Longrightarrow> dr = (if player = Red then 1 else -1)"
  by (auto simp: getDirections_def split: if_splits)

lemma getRegularMoves_elem:
  assumes "m \<in> set (getRegularMoves board row col player type)"
  shows "\<exists>dr dc. (dr, dc) \<in> set (getDirections player type)
     \<and> m = \<lparr>toRow = row + dr, toCol = col + dc, mtype = MoveType.Regular,
            capturedRow = None, capturedCol = None\<rparr>
     \<and> isValidPosition (row + dr) (col + dc)
     \<and> getPieceAt board (row + dr) (col + dc) = None"
  using assms
  by (auto simp: getRegularMoves_def Let_def split: if_splits)

lemma getRegularMoves_intro:
  assumes "(dr, dc) \<in> set (getDirections player type)"
    and "isValidPosition (row + dr) (col + dc)"
    and "getPieceAt board (row + dr) (col + dc) = None"
  shows "\<lparr>toRow = row + dr, toCol = col + dc, mtype = MoveType.Regular,
            capturedRow = None, capturedCol = None\<rparr> \<in> set (getRegularMoves board row col player type)"
  using assms
  by (force simp: getRegularMoves_def Let_def)

lemma getCaptureMoves_intro:
  assumes "(dr, dc) \<in> set (getDirections player type)"
    and "isValidPosition (row + 2 * dr) (col + 2 * dc)"
    and "getPieceAt board (row + dr) (col + dc) = Some jp" and "pplayer jp \<noteq> player"
    and "getPieceAt board (row + 2 * dr) (col + 2 * dc) = None"
  shows "\<lparr>toRow = row + 2 * dr, toCol = col + 2 * dc, mtype = MoveType.Capture,
            capturedRow = Some (row + dr), capturedCol = Some (col + dc)\<rparr>
          \<in> set (getCaptureMoves board row col player type)"
  using assms
  by (force simp: getCaptureMoves_def Let_def)

lemma getValidMoves_subset:
  assumes "getPieceAt board row col = Some piece"
  shows "set (getValidMoves board row col)
     \<subseteq> set (getCaptureMoves board row col (pplayer piece) (ptype piece))
       \<union> set (getRegularMoves board row col (pplayer piece) (ptype piece))"
  using assms by (auto simp: getValidMoves_def Let_def)

text \<open>
  Claim C4. For a square holding a regular piece, every quiet step and every capture
  generated for it (by \<open>getRegularMoves\<close>, \<open>getCaptureMoves\<close> and \<open>getValidMoves\<close>)
  goes to a greater row for Red and to a smaller row for Black. For a king the directions
  are the four diagonals, and in each of them the step to an empty square of the board and
  the jump over an opposing piece to an empty square of the board are generated.
\<close>

theorem piece_directions:
  assumes "getPieceAt board row col = Some piece"
  shows "(ptype piece = PieceType.Regular \<longrightarrow>
      (\<forall>m \<in> set (getRegularMoves board row col (pplayer piece) (ptype piece))
            \<union> set (getCaptureMoves board row col (pplayer piece) (ptype piece))
            \<union> set (getValidMoves board row col).
         if pplayer piece = Red then row < toRow m else toRow m < row))
   \<and> (ptype piece = King \<longrightarrow>
      set (getDirections (pplayer piece) (ptype piece)) = {(-1, -1), (-1, 1), (1, -1), (1, 1)}
      \<and> (\<forall>dr \<in> {-1, 1}. \<forall>dc \<in> {-1, 1}.
           (isValidPosition (row + dr) (col + dc) \<and> getPieceAt board (row + dr) (col + dc) = None \<longrightarrow>
              \<lparr>toRow = row + dr, toCol = col + dc, mtype = MoveType.Regular,
                capturedRow = None, capturedCol = None\<rparr>
              \<in> set (getRegularMoves board row col (pplayer piece) (ptype piece)))
         \<and> (isValidPosition (row + 2 * dr) (col + 2 * dc)
              \<and> (\<exists>jp. getPieceAt board (row + dr) (col + dc) = Some jp \<and> pplayer jp \<noteq> pplayer piece)
              \<and> getPieceAt board (row + 2 * dr) (col + 2 * dc) = None \<longrightarrow>
              \<lparr>toRow = row + 2 * dr, toCol = col + 2 * dc, mtype = MoveType.Capture,
                capturedRow = Some (row + dr), capturedCol = Some (col + dc)\<rparr>
              \<in> set (getCaptureMoves board row col (pplayer piece) (ptype piece)))))"
proof (intro conjI impI)
  assume reg: "ptype piece = PieceType.Regular"
  show "\<forall>m \<in> set (getRegularMoves board row col (pplayer piece) (ptype piece))
            \<union> set (getCaptureMoves board row col (pplayer piece) (ptype piece))
            \<union> set (getValidMoves board row col).
         if pplayer piece = Red then row < toRow m else toRow m < row"
  proof
    fix m
    assume "m \<in> set (getRegularMoves board row col (pplayer piece) (ptype piece))
            \<union> set (getCaptureMoves board row col (pplayer piece) (ptype piece))
            \<union> set (getValidMoves board row col)"
    with getValidMoves_subset [OF assms]
    consider "m \<in> set (getRegularMoves board row col (pplayer piece) PieceType.Regular)"
      | "m \<in> set (getCaptureMoves board row col (pplayer piece) PieceType.Regular)"
      using reg by auto
    then show "if pplayer piece = Red then row < toRow m else toRow m < row"
    proof cases
      case 1
      from getRegularMoves_elem [OF 1] show ?thesis
        by (auto dest!: getDirections_forward split: if_splits)
    next
      case 2
      from getCaptureMoves_elem [OF 2] show ?thesis
        by (auto dest!: getDirections_forward split: if_splits)
    qed
  qed
next
  assume "ptype piece = King"
  then show "set (getDirections (pplayer piece) (ptype piece)) = {(-1, -1), (-1, 1), (1, -1), (1, 1)}"
    by (auto simp: getDirections_def DIRECTIONS_def)
next
  assume king: "ptype piece = King"
  have dirs: "\<And>dr dc. dr \<in> {-1, 1} \<Longrightarrow> dc \<in> {-1, 1} \<Longrightarrow>
      (dr, dc) \<in> set (getDirections (pplayer piece) (ptype piece))"
    using king by (auto simp: getDirections_def DIRECTIONS_def)
  show "\<forall>dr \<in> {-1, 1}. \<forall>dc \<in> {-1, 1}.
           (isValidPosition (row + dr) (col + dc) \<and> getPieceAt board (row + dr) (col + dc) = None \<longrightarrow>
              \<lparr>toRow = row + dr, toCol = col + dc, mtype = MoveType.Regular,
                capturedRow = None, capturedCol = None\<rparr>
              \<in> set (getRegularMoves board row col (pplayer piece) (ptype piece)))
         \<and> (isValidPosition (row + 2 * dr) (col + 2 * dc)
              \<and> (\<exists>jp. getPieceAt board (row + dr) (col + dc) = Some jp \<and> pplayer jp \<noteq> pplayer piece)
              \<and> getPieceAt board (row + 2 * dr) (col + 2 * dc) = None \<longrightarrow>
              \<lparr>toRow = row + 2 * dr, toCol = col + 2 * dc, mtype = MoveType.Capture,
                capturedRow = Some (row + dr), capturedCol = Some (col + dc)\<rparr>
              \<in> set (getCaptureMoves board row col (pplayer piece) (ptype piece)))"
  proof (intro ballI conjI impI)
    fix dr dc :: int
    assume d: "dr \<in> {-1, 1}" "dc \<in> {-1, 1}"
    assume "isValidPosition (row + dr) (col + dc) \<and> getPieceAt board (row + dr) (col + dc) = None"
    then show "\<lparr>toRow = row + dr, toCol = col + dc, mtype = MoveType.Regular,
                capturedRow = None, capturedCol = None\<rparr>
              \<in> set (getRegularMoves board row col (pplayer piece) (ptype piece))"
      using getRegularMoves_intro [OF dirs [OF d]] by blast
  next
    fix dr dc :: int
    assume d: "dr \<in> {-1, 1}" "dc \<in> {-1, 1}"
    assume "isValidPosition (row + 2 * dr) (col + 2 * dc)
              \<and> (\<exists>jp. getPieceAt board (row + dr) (col + dc) = Some jp \<and> pplayer jp \<noteq> pplayer piece)
              \<and> getPieceAt board (row + 2 * dr) (col + 2 * dc) = None"
    then show "\<lparr>toRow = row + 2 * dr, toCol = col + 2 * dc, mtype = MoveType.Capture,
                capturedRow = Some (row + dr), capturedCol = Some (col + dc)\<rparr>
              \<in> set (getCaptureMoves board row col (pplayer piece) (ptype piece))"
      using getCaptureMoves_intro [OF dirs [OF d]] by blast
  qed
qed

theorem piece_directions_witness:
  "getPieceAt initialBoard 2 1 = Some \<lparr>pplayer = Red, ptype = PieceType.Regular\<rparr>
   \<and> \<lparr>toRow = 3, toCol = 0, mtype = MoveType.Regular, capturedRow = None, capturedCol = None\<rparr>
       \<in> set (getValidMoves initialBoard 2 1)
   \<and> 2 < toRow \<lparr>toRow = 3, toCol = 0, mtype = MoveType.Regular, capturedRow = None, capturedCol = None\<rparr>
   \<and> getPieceAt kingBoard 3 3 = Some \<lparr>pplayer = Red, ptype = King\<rparr>
   \<and> \<lparr>toRow = 3 + (-1), toCol = 3 + (-1), mtype = MoveType.Regular, capturedRow = None, capturedCol = None\<rparr>
       \<in> set (getRegularMoves kingBoard 3 3 Red King)"
proof -
  have p1: "getPieceAt initialBoard 2 1 = Some \<lparr>pplayer = Red, ptype = PieceType.Regular\<rparr>"
    by code_simp
  have m1: "\<lparr>toRow = 3, toCol = 0, mtype = MoveType.Regular, capturedRow = None, capturedCol = None\<rparr>
       \<in> set (getValidMoves initialBoard 2 1)"
    by code_simp
  have p2: "getPieceAt kingBoard 3 3 = Some \<lparr>pplayer = Red, ptype = King\<rparr>"
    by code_simp
  have e2: "isValidPosition (3 + (-1)) (3 + (-1)) \<and> getPieceAt kingBoard (3 + (-1)) (3 + (-1)) = None"
    by code_simp
  from piece_directions [OF p1] m1
  have a: "2 < toRow \<lparr>toRow = 3, toCol = 0, mtype = MoveType.Regular, capturedRow = None, capturedCol = None\<rparr>"
    by simp
  from piece_directions [OF p2] e2
  have b: "\<lparr>toRow = 3 + (-1), toCol = 3 + (-1), mtype = MoveType.Regular, capturedRow = None, capturedCol = None\<rparr>
       \<in> set (getRegularMoves kingBoard 3 3 Red King)"
    by simp
  from p1 m1 a p2 b show ?thesis by blast
qed

lemma first_pass:
  "fold (\<lambda>(piece, row, col) (allMoves, hasCapture).
       let captures = getCaptureMoves board row col (pplayer piece) (ptype piece) in
       if length captures > 0
       then (allMoves @ map (\<lambda>m. \<lparr>fromRow = row, fromCol = col, move = m\<rparr>) captures, True)
       else (allMoves, hasCapture))
     pieces (acc, h)
   = (acc @ concat (map (capturesOf board) pieces),
      h \<or> (\<exists>p \<in> set pieces. capturesOf board p \<noteq> []))"
  by (induction pieces arbitrary: acc h) (auto simp: capturesOf_def Let_def)

lemma second_pass:
  "fold (\<lambda>(piece, row, col) allMoves.
       let moves = getRegularMoves board row col (pplayer piece) (ptype piece) in
       allMoves @ map (\<lambda>m. \<lparr>fromRow = row, fromCol = col, move = m\<rparr>) moves)
     pieces acc
   = acc @ concat (map (stepsOf board) pieces)"
  by (induction pieces arbitrary: acc) (auto simp: stepsOf_def Let_def)

lemma getAllValidMoves_eq:
  "getAllValidMoves board player =
     (if \<exists>p \<in> set (getPieces board player). capturesOf board p \<noteq> []
      then concat (map (capturesOf board) (getPieces board player))
      else concat (map (stepsOf board) (getPieces board player)))"
  unfolding getAllValidMoves_def first_pass second_pass
  by (simp add: Let_def)

text \<open>
  Claim C2. If some piece of the player has a capture, \<open>getAllValidMoves\<close> is exactly the
  captures of the player's pieces, piece by piece in the order of \<open>getPieces\<close>, and holds
  no quiet move; if no piece has a capture, it is exactly the quiet steps of the pieces.
\<close>

theorem forced_capture_global:
  "((\<exists>(piece, row, col) \<in> set (getPieces board player).
        getCaptureMoves board row col (pplayer piece) (ptype piece) \<noteq> []) \<longrightarrow>
      getAllValidMoves board player = concat (map (capturesOf board) (getPieces board player))
      \<and> (\<forall>pm \<in> set (getAllValidMoves board player). mtype (move pm) = MoveType.Capture))
   \<and> (\<not> (\<exists>(piece, row, col) \<in> set (getPieces board player).
        getCaptureMoves board row col (pplayer piece) (ptype piece) \<noteq> []) \<longrightarrow>
      getAllValidMoves board player = concat (map (stepsOf board) (getPieces board player))
      \<and> (\<forall>pm \<in> set (getAllValidMoves board player). mtype (move pm) = MoveType.Regular))"
proof -
  have iff: "(\<exists>(piece, row, col) \<in> set (getPieces board player).
        getCaptureMoves board row col (pplayer piece) (ptype piece) \<noteq> [])
      \<longleftrightarrow> (\<exists>p \<in> set (getPieces board player). capturesOf board p \<noteq> [])"
    by (rule bex_cong [OF refl]) (simp add: capturesOf_def split: prod.splits)
  have caps: "\<forall>pm \<in> set (concat (map (capturesOf board) (getPieces board player))).
      mtype (move pm) = MoveType.Capture"
    by (auto simp: capturesOf_def dest!: getCaptureMoves_elem)
  have steps: "\<forall>pm \<in> set (concat (map (stepsOf board) (getPieces board player))).
      mtype (move pm) = MoveType.Regular"
    by (auto simp: stepsOf_def dest!: getRegularMoves_elem)
  show ?thesis
    unfolding iff using caps steps by (simp add: getAllValidMoves_eq)
qed

theorem forced_capture_global_witness:
  "getAllValidMoves forcedBoard Red =
     [\<lparr>fromRow = 2, fromCol = 5,
       move = \<lparr>toRow = 4, toCol = 3, mtype = MoveType.Capture,
               capturedRow = Some 3, capturedCol = Some 4\<rparr>\<rparr>]
   \<and> mtype (move (hd (getAllValidMoves forcedBoard Red))) = MoveType.Capture
   \<and> getAllValidMoves kingBoard Red = concat (map (stepsOf kingBoard) (getPieces kingBoard Red))
   \<and> mtype (move (hd (getAllValidMoves kingBoard Red))) = MoveType.Regular"
proof -
  have h1: "\<exists>(piece, row, col) \<in> set (getPieces forcedBoard Red).
      getCaptureMoves forcedBoard row col (pplayer piece) (ptype piece) \<noteq> []"
    by code_simp
  have h2: "\<not> (\<exists>(piece, row, col) \<in> set (getPieces kingBoard Red).
      getCaptureMoves kingBoard row col (pplayer piece) (ptype piece) \<noteq> [])"
    by code_simp
  have v1: "concat (map (capturesOf forcedBoard) (getPieces forcedBoard Red)) =
     [\<lparr>fromRow = 2, fromCol = 5,
       move = \<lparr>toRow = 4, toCol = 3, mtype = MoveType.Capture,
               capturedRow = Some 3, capturedCol = Some 4\<rparr>\<rparr>]"
    by code_simp
  have v2: "hd (concat (map (stepsOf kingBoard) (getPieces kingBoard Red))) \<in>
     set (concat (map (stepsOf kingBoard) (getPieces kingBoard Red)))"
    by code_simp
  from forced_capture_global [of forcedBoard Red] h1 v1
  have a: "getAllValidMoves forcedBoard Red =
     [\<lparr>fromRow = 2, fromCol = 5,
       move = \<lparr>toRow = 4, toCol = 3, mtype = MoveType.Capture,
               capturedRow = Some 3, capturedCol = Some 4\<rparr>\<rparr>]"
    by simp
  from forced_capture_global [of kingBoard Red] h2
  have b: "getAllValidMoves kingBoard Red = concat (map (stepsOf kingBoard) (getPieces kingBoard Red))"
    and c: "\<forall>pm \<in> set (getAllValidMoves kingBoard Red). mtype (move pm) = MoveType.Regular"
    by blast+
  from b c v2 have "mtype (move (hd (getAllValidMoves kingBoard Red))) = MoveType.Regular"
    by metis
  with a b show ?thesis by simp
qed

section \<open>Properties of the capture chains\<close>

lemma getPieceAt_clone: "getPieceAt (clone board) row col = getPieceAt board row col"
  by (auto simp: getPieceAt_def clone_def split: option.splits)

lemma getCaptureMoves_clone:
  "getCaptureMoves (clone board) row col player type = getCaptureMoves board row col player type"
  unfolding getCaptureMoves_def getPieceAt_clone ..

lemma execute_capture_lands:
  assumes m: "m \<in> set (getCaptureMoves board row col player type)"
    and src: "getPieceAt board row col = Some piece"
  shows "\<exists>newBoard landed. execute (clone board) row col m = Inr newBoard
     \<and> getPieceAt newBoard (toRow m) (toCol m) = Some landed \<and> pplayer landed = pplayer piece"
proof -
  from getCaptureMoves_elem [OF m] obtain dr dc jp where
    d: "(dr, dc) \<in> set (getDirections player type)"
    and m_eq: "m = \<lparr>toRow = row + 2 * dr, toCol = col + 2 * dc, mtype = MoveType.Capture,
            capturedRow = Some (row + dr), capturedCol = Some (col + dc)\<rparr>"
    and land: "isValidPosition (row + 2 * dr) (col + 2 * dc)"
    by blast
  from getDirections_unit [OF d] have unit: "(dr = 1 \<or> dr = -1) \<and> (dc = 1 \<or> dc = -1)" .
  from src have rng: "inRange row" "inRange col" and g: "grid board row col = Some piece"
    by (auto simp: getPieceAt_def inRange_def split: if_splits)
  let ?b1 = "removePiece (clone board) (row + dr) (col + dc)"
  have src1: "grid ?b1 row col = Some piece"
    using rng g unit by (auto simp: removePiece_def setCell_def clone_def inRange_def)
  have lr: "inRange (row + 2 * dr)" using land by (simp add: isValidPosition_def inRange_def)
  have "execute (clone board) row col m = movePiece ?b1 row col (row + 2 * dr) (col + 2 * dc)"
    by (simp add: execute_def m_eq)
  also note movePiece_lands [OF rng(1) lr src1, of "col + 2 * dc"]
  finally show ?thesis
    using land by (auto simp: m_eq setCell_def getPieceAt_def isValidPosition_def)
qed

lemma forEach_outputs:
  assumes "\<And>x acc. x \<in> set xs \<Longrightarrow>
     \<exists>out. body x acc = Inr (acc @ out) \<and> out \<noteq> [] \<and> (\<forall>y \<in> set out. R y)"
  shows "\<exists>out. forEach xs body acc = Inr (acc @ out) \<and> (xs \<noteq> [] \<longrightarrow> out \<noteq> []) \<and> (\<forall>y \<in> set out. R y)"
  using assms
proof (induction xs arbitrary: acc)
  case Nil
  then show ?case by simp
next
  case (Cons x xs)
  from Cons.prems [of x acc] obtain out1 where
    o1: "body x acc = Inr (acc @ out1)" "out1 \<noteq> []" "\<forall>y \<in> set out1. R y"
    by auto
  from Cons.IH [of "acc @ out1"] Cons.prems obtain out2 where
    o2: "forEach xs body (acc @ out1) = Inr ((acc @ out1) @ out2)" "\<forall>y \<in> set out2. R y"
    by auto
  show ?case
    using o1 o2 by (intro exI [of _ "out1 @ out2"]) auto
qed

lemma findCaptureChains_chains:
  assumes "getPieceAt board row col = Some piece" "pplayer piece = player" "ptype piece = type"
  shows "\<exists>out. findCaptureChains board row col player type currentChain allChains = Inr (allChains @ out)
     \<and> (out = [] \<longleftrightarrow> currentChain = [] \<and> getCaptureMoves board row col player type = [])
     \<and> (\<forall>chain \<in> set out. \<exists>suffix. chain = currentChain @ suffix
           \<and> (getCaptureMoves board row col player type \<noteq> [] \<longrightarrow> suffix \<noteq> [])
           \<and> captureChain board row col suffix \<and> noCaptureAfter board row col suffix)"
  using assms
proof (induction board row col player type currentChain allChains arbitrary: piece
    rule: findCaptureChains.induct)
  case (1 board row col player type currentChain allChains)
  let ?captures = "getCaptureMoves board row col player type"
  let ?R = "\<lambda>chain. \<exists>suffix. chain = currentChain @ suffix \<and> suffix \<noteq> []
           \<and> captureChain board row col suffix \<and> noCaptureAfter board row col suffix"
  show ?case
  proof (cases "?captures = []")
    case True
    have "noCaptureAfter board row col []"
      using True "1.prems" by (simp add: noCaptureAfter_def)
    then show ?thesis
      using True by (subst findCaptureChains.simps) (auto simp: Let_def)
  next
    case False
    let ?body = "\<lambda>capture allChains.
          case execute (clone board) row col capture of
            Inl e \<Rightarrow> Inl e
          | Inr newBoard \<Rightarrow>
              let newPiece = getPieceAt newBoard (toRow capture) (toCol capture);
                  newType = (case newPiece of Some np \<Rightarrow> ptype np | None \<Rightarrow> type)
              in findCaptureChains newBoard (toRow capture) (toCol capture) player newType
                   (currentChain @ [capture]) allChains"
    have step: "\<exists>out. ?body capture acc = Inr (acc @ out) \<and> out \<noteq> [] \<and> (\<forall>y \<in> set out. ?R y)"
      if cap: "capture \<in> set ?captures" for capture acc
    proof -
      from execute_capture_lands [OF cap "1.prems"(1)] obtain newBoard landed where
        ex: "execute (clone board) row col capture = Inr newBoard"
        and landed: "getPieceAt newBoard (toRow capture) (toCol capture) = Some landed"
        and pl: "pplayer landed = pplayer piece"
        by blast
      from "1.IH" [OF refl _ cap ex refl refl landed, of acc] False pl "1.prems"(2) landed
      obtain out where
        o: "findCaptureChains newBoard (toRow capture) (toCol capture) player (ptype landed)
              (currentChain @ [capture]) acc = Inr (acc @ out)"
        and ne: "out \<noteq> []"
        and chains: "\<forall>chain \<in> set out. \<exists>suffix. chain = (currentChain @ [capture]) @ suffix
           \<and> captureChain newBoard (toRow capture) (toCol capture) suffix
           \<and> noCaptureAfter newBoard (toRow capture) (toCol capture) suffix"
        by fastforce
      have "?R chain" if "chain \<in> set out" for chain
      proof -
        from chains that obtain suffix where
          s: "chain = (currentChain @ [capture]) @ suffix"
            "captureChain newBoard (toRow capture) (toCol capture) suffix"
            "noCaptureAfter newBoard (toRow capture) (toCol capture) suffix"
          by blast
        have "captureChain board row col (capture # suffix)"
          using s(2) cap ex "1.prems" by simp
        moreover have "noCaptureAfter board row col (capture # suffix)"
          using s(3) ex by (simp add: noCaptureAfter_def)
        ultimately show ?thesis
          using s(1) by (intro exI [of _ "capture # suffix"]) simp
      qed
      with o ne landed ex show ?thesis by (simp add: Let_def)
    qed
    from forEach_outputs [of ?captures ?body ?R allChains, OF step] False
    obtain out where
      "forEach ?captures ?body allChains = Inr (allChains @ out)" "out \<noteq> []" "\<forall>y \<in> set out. ?R y"
      by blast
    then show ?thesis
      using False by (subst findCaptureChains.simps) (auto simp: Let_def)
  qed
qed

text \<open>
  Claim C3. \<open>getCaptureChains\<close> returns (it raises nothing and its recursion ends); every
  chain it returns is a non-empty chain of consecutive captures of the piece of the square,
  a promotion on the way changing the rank used for the next jump, after which that piece
  has no capture left; and the result is empty exactly when the square is empty or its
  piece has no capture.
\<close>

theorem capture_chains_maximal:
  "\<exists>found. getCaptureChains board row col = Inr found
     \<and> (\<forall>chain \<in> set found. maximalChain (clone board) row col chain)
     \<and> (found = [] \<longleftrightarrow>
          (case getPieceAt board row col of
             None \<Rightarrow> True
           | Some piece \<Rightarrow> getCaptureMoves board row col (pplayer piece) (ptype piece) = []))"
proof (cases "getPieceAt board row col")
  case None
  then show ?thesis by (simp add: getCaptureChains_def)
next
  case (Some piece)
  then have "getPieceAt (clone board) row col = Some piece"
    by (simp add: getPieceAt_clone)
  from findCaptureChains_chains [OF this refl refl, of "[]" "[]"]
  obtain out where
    out: "findCaptureChains (clone board) row col (pplayer piece) (ptype piece) [] [] = Inr out"
    and emp: "out = [] \<longleftrightarrow> getCaptureMoves board row col (pplayer piece) (ptype piece) = []"
    and chains: "\<forall>chain \<in> set out.
           (getCaptureMoves board row col (pplayer piece) (ptype piece) \<noteq> [] \<longrightarrow> chain \<noteq> [])
           \<and> captureChain (clone board) row col chain \<and> noCaptureAfter (clone board) row col chain"
    by (auto simp: getCaptureMoves_clone)
  from emp chains have "\<forall>chain \<in> set out. maximalChain (clone board) row col chain"
    by (auto simp: maximalChain_def)
  with out emp Some show ?thesis
    by (simp add: getCaptureChains_def)
qed

theorem capture_chains_maximal_witness:
  "getCaptureChains promotionBoard 5 2 =
     Inr [[\<lparr>toRow = 7, toCol = 4, mtype = MoveType.Capture, capturedRow = Some 6, capturedCol = Some 3\<rparr>,
           \<lparr>toRow = 5, toCol = 6, mtype = MoveType.Capture, capturedRow = Some 6, capturedCol = Some 5\<rparr>]]
   \<and> maximalChain (clone promotionBoard) 5 2
        [\<lparr>toRow = 7, toCol = 4, mtype = MoveType.Capture, capturedRow = Some 6, capturedCol = Some 3\<rparr>,
         \<lparr>toRow = 5, toCol = 6, mtype = MoveType.Capture, capturedRow = Some 6, capturedCol = Some 5\<rparr>]
   \<and> getCaptureChains kingBoard 3 3 = Inr []
   \<and> getCaptureChains kingBoard 0 0 = Inr []"
proof -
  have a: "getCaptureChains promotionBoard 5 2 =
     Inr [[\<lparr>toRow = 7, toCol = 4, mtype = MoveType.Capture, capturedRow = Some 6, capturedCol = Some 3\<rparr>,
           \<lparr>toRow = 5, toCol = 6, mtype = MoveType.Capture, capturedRow = Some 6, capturedCol = Some 5\<rparr>]]"
    by code_simp
  have b: "getPieceAt kingBoard 3 3 = Some \<lparr>pplayer = Red, ptype = King\<rparr>"
    by code_simp
  have c: "getCaptureMoves kingBoard 3 3 Red King = []"
    by code_simp
  have d: "getPieceAt kingBoard 0 0 = None"
    by code_simp
  from capture_chains_maximal [of promotionBoard 5 2] a
  have 1: "maximalChain (clone promotionBoard) 5 2
        [\<lparr>toRow = 7, toCol = 4, mtype = MoveType.Capture, capturedRow = Some 6, capturedCol = Some 3\<rparr>,
         \<lparr>toRow = 5, toCol = 6, mtype = MoveType.Capture, capturedRow = Some 6, capturedCol = Some 5\<rparr>]"
    by auto
  from capture_chains_maximal [of kingBoard 3 3] b c
  have 2: "getCaptureChains kingBoard 3 3 = Inr []" by auto
  from capture_chains_maximal [of kingBoard 0 0] d
  have 3: "getCaptureChains kingBoard 0 0 = Inr []" by auto
  from a 1 2 3 show ?thesis by blast
qed

section \<open>Properties of the captured squares\<close>

lemma getCaptureMoves_isJump:
  "m \<in> set (getCaptureMoves board row col player type) \<Longrightarrow> isJump board player row col m"
  by (drule getCaptureMoves_elem) (auto simp: isJump_def)

lemma getRegularMoves_isQuiet:
  "m \<in> set (getRegularMoves board row col player type) \<Longrightarrow> isQuiet m"
  by (drule getRegularMoves_elem) (auto simp: isQuiet_def)

lemma getPieces_elem:
  "(piece, row, col) \<in> set (getPieces board player) \<Longrightarrow>
     getPieceAt board row col = Some piece \<and> pplayer piece = player \<and> inRange row \<and> inRange col"
  by (auto simp: getPieces_def getPieceAt_def inRange_def split: option.splits if_splits)

lemma getAllValidMoves_elem:
  assumes "pm \<in> set (getAllValidMoves board player)"
  shows "\<exists>piece. (piece, fromRow pm, fromCol pm) \<in> set (getPieces board player)
     \<and> (move pm \<in> set (getCaptureMoves board (fromRow pm) (fromCol pm) player (ptype piece))
        \<or> move pm \<in> set (getRegularMoves board (fromRow pm) (fromCol pm) player (ptype piece)))"
proof -
  from assms obtain p where p: "p \<in> set (getPieces board player)"
    and pm: "pm \<in> set (capturesOf board p) \<or> pm \<in> set (stepsOf board p)"
    by (auto simp: getAllValidMoves_eq split: if_splits)
  obtain piece row col where p_eq: "p = (piece, row, col)" by (cases p)
  from p getPieces_elem [of piece row col board player] have "pplayer piece = player"
    by (simp add: p_eq)
  with p pm show ?thesis
    unfolding p_eq by (auto simp: capturesOf_def stepsOf_def)
qed

lemma captureChain_jumpChain:
  assumes "captureChain board row col chain" and "getPieceAt board row col = Some piece"
  shows "jumpChain board (pplayer piece) row col chain"
  using assms
proof (induction chain arbitrary: board row col piece)
  case Nil
  then show ?case by simp
next
  case (Cons m ms)
  from Cons.prems have m: "m \<in> set (getCaptureMoves board row col (pplayer piece) (ptype piece))"
    by simp
  from execute_capture_lands [OF m Cons.prems(2)] obtain newBoard landed where
    ex: "execute (clone board) row col m = Inr newBoard"
    and landed: "getPieceAt newBoard (toRow m) (toCol m) = Some landed" "pplayer landed = pplayer piece"
    by blast
  from Cons.prems ex have "captureChain newBoard (toRow m) (toCol m) ms" by simp
  from Cons.IH [OF this landed(1)] landed(2)
  have "jumpChain newBoard (pplayer piece) (toRow m) (toCol m) ms" by simp
  with getCaptureMoves_isJump [OF m] ex show ?case by simp
qed

lemma getCaptureChains_jumpChain:
  assumes "getCaptureChains board row col = Inr found" and "chain \<in> set found"
  shows "case getPieceAt board row col of
           None \<Rightarrow> False
         | Some piece \<Rightarrow> jumpChain (clone board) (pplayer piece) row col chain"
proof (cases "getPieceAt board row col")
  case None
  with assms show ?thesis by (simp add: getCaptureChains_def)
next
  case (Some piece)
  then have p: "getPieceAt (clone board) row col = Some piece"
    by (simp add: getPieceAt_clone)
  from findCaptureChains_chains [OF p refl refl, of "[]" "[]"] assms Some
  have "captureChain (clone board) row col chain"
    by (auto simp: getCaptureChains_def)
  from captureChain_jumpChain [OF this p] Some show ?thesis by simp
qed

text \<open>
  Claim C10. Every move of \<open>getCaptureMoves\<close> is a capture whose captured square is the
  midpoint of source and destination, where a piece of the other player stands, and whose
  destination is an empty square of the board; every move of \<open>getRegularMoves\<close> is quiet
  and carries no captured square; every move of \<open>getValidMoves\<close> and of
  \<open>getAllValidMoves\<close> is one or the other; and in every chain of \<open>getCaptureChains\<close>
  every move is such a capture on the board that the moves before it leave.
\<close>

theorem captured_midpoint:
  "(\<forall>m \<in> set (getCaptureMoves board row col player type). isJump board player row col m)
   \<and> (\<forall>m \<in> set (getRegularMoves board row col player type). isQuiet m)
   \<and> (\<forall>m \<in> set (getValidMoves board row col).
        case getPieceAt board row col of
          None \<Rightarrow> False
        | Some piece \<Rightarrow> if mtype m = MoveType.Capture then isJump board (pplayer piece) row col m
                        else isQuiet m)
   \<and> (\<forall>pm \<in> set (getAllValidMoves board player).
        if mtype (move pm) = MoveType.Capture
        then isJump board player (fromRow pm) (fromCol pm) (move pm)
        else isQuiet (move pm))
   \<and> (\<forall>found. getCaptureChains board row col = Inr found \<longrightarrow>
        (\<forall>chain \<in> set found.
           case getPieceAt board row col of
             None \<Rightarrow> False
           | Some piece \<Rightarrow> jumpChain (clone board) (pplayer piece) row col chain))"
proof (intro conjI ballI)
  fix m assume "m \<in> set (getCaptureMoves board row col player type)"
  then show "isJump board player row col m" by (rule getCaptureMoves_isJump)
next
  fix m assume "m \<in> set (getRegularMoves board row col player type)"
  then show "isQuiet m" by (rule getRegularMoves_isQuiet)
next
  fix m assume m: "m \<in> set (getValidMoves board row col)"
  then obtain piece where piece: "getPieceAt board row col = Some piece"
    by (cases "getPieceAt board row col") (auto simp: getValidMoves_def)
  from m getValidMoves_subset [OF piece]
  have "isJump board (pplayer piece) row col m \<or> isQuiet m"
    by (auto dest: getCaptureMoves_isJump getRegularMoves_isQuiet)
  then show "case getPieceAt board row col of
          None \<Rightarrow> False
        | Some piece \<Rightarrow> if mtype m = MoveType.Capture then isJump board (pplayer piece) row col m
                        else isQuiet m"
    by (auto simp: piece isJump_def isQuiet_def)
next
  fix pm assume "pm \<in> set (getAllValidMoves board player)"
  from getAllValidMoves_elem [OF this]
  have "isJump board player (fromRow pm) (fromCol pm) (move pm) \<or> isQuiet (move pm)"
    by (auto dest: getCaptureMoves_isJump getRegularMoves_isQuiet)
  then show "if mtype (move pm) = MoveType.Capture
        then isJump board player (fromRow pm) (fromCol pm) (move pm)
        else isQuiet (move pm)"
    by (auto simp: isJump_def isQuiet_def)
next
  show "\<forall>found. getCaptureChains board row col = Inr found \<longrightarrow>
        (\<forall>chain \<in> set found.
           case getPieceAt board row col of
             None \<Rightarrow> False
           | Some piece \<Rightarrow> jumpChain (clone board) (pplayer piece) row col chain)"
    using getCaptureChains_jumpChain by blast
qed

theorem captured_midpoint_witness:
  "\<lparr>toRow = 4, toCol = 3, mtype = MoveType.Capture, capturedRow = Some 3, capturedCol = Some 4\<rparr>
       \<in> set (getCaptureMoves forcedBoard 2 5 Red PieceType.Regular)
   \<and> isJump forcedBoard Red 2 5
        \<lparr>toRow = 4, toCol = 3, mtype = MoveType.Capture, capturedRow = Some 3, capturedCol = Some 4\<rparr>
   \<and> \<lparr>toRow = 3, toCol = 0, mtype = MoveType.Regular, capturedRow = None, capturedCol = None\<rparr>
       \<in> set (getRegularMoves forcedBoard 2 1 Red PieceType.Regular)
   \<and> isQuiet \<lparr>toRow = 3, toCol = 0, mtype = MoveType.Regular, capturedRow = None, capturedCol = None\<rparr>
   \<and> \<lparr>fromRow = 2, fromCol = 5,
       move = \<lparr>toRow = 4, toCol = 3, mtype = MoveType.Capture,
               capturedRow = Some 3, capturedCol = Some 4\<rparr>\<rparr> \<in> set (getAllValidMoves forcedBoard Red)
   \<and> jumpChain (clone promotionBoard) Red 5 2
        [\<lparr>toRow = 7, toCol = 4, mtype = MoveType.Capture, capturedRow = Some 6, capturedCol = Some 3\<rparr>,
         \<lparr>toRow = 5, toCol = 6, mtype = MoveType.Capture, capturedRow = Some 6, capturedCol = Some 5\<rparr>]"
proof -
  have m1: "\<lparr>toRow = 4, toCol = 3, mtype = MoveType.Capture, capturedRow = Some 3, capturedCol = Some 4\<rparr>
       \<in> set (getCaptureMoves forcedBoard 2 5 Red PieceType.Regular)"
    by code_simp
  have m2: "\<lparr>toRow = 3, toCol = 0, mtype = MoveType.Regular, capturedRow = None, capturedCol = None\<rparr>
       \<in> set (getRegularMoves forcedBoard 2 1 Red PieceType.Regular)"
    by code_simp
  have m3: "\<lparr>fromRow = 2, fromCol = 5,
       move = \<lparr>toRow = 4, toCol = 3, mtype = MoveType.Capture,
               capturedRow = Some 3, capturedCol = Some 4\<rparr>\<rparr> \<in> set (getAllValidMoves forcedBoard Red)"
    by code_simp
  from captured_midpoint [of forcedBoard 2 5 Red PieceType.Regular] m1
  have a: "isJump forcedBoard Red 2 5
        \<lparr>toRow = 4, toCol = 3, mtype = MoveType.Capture, capturedRow = Some 3, capturedCol = Some 4\<rparr>"
    by blast
  from captured_midpoint [of forcedBoard 2 1 Red PieceType.Regular] m2
  have b: "isQuiet \<lparr>toRow = 3, toCol = 0, mtype = MoveType.Regular, capturedRow = None, capturedCol = None\<rparr>"
    by blast
  have ch: "getCaptureChains promotionBoard 5 2 =
     Inr [[\<lparr>toRow = 7, toCol = 4, mtype = MoveType.Capture, capturedRow = Some 6, capturedCol = Some 3\<rparr>,
           \<lparr>toRow = 5, toCol = 6, mtype = MoveType.Capture, capturedRow = Some 6, capturedCol = Some 5\<rparr>]]"
    by code_simp
  have p: "getPieceAt promotionBoard 5 2 = Some \<lparr>pplayer = Red, ptype = PieceType.Regular\<rparr>"
    by code_simp
  from captured_midpoint [of promotionBoard 5 2 Red PieceType.Regular] ch p
  have c: "jumpChain (clone promotionBoard) Red 5 2
        [\<lparr>toRow = 7, toCol = 4, mtype = MoveType.Capture, capturedRow = Some 6, capturedCol = Some 3\<rparr>,
         \<lparr>toRow = 5, toCol = 6, mtype = MoveType.Capture, capturedRow = Some 6, capturedCol = Some 5\<rparr>]"
    by simp
  from m1 a m2 b m3 c show ?thesis by blast
qed

section \<open>Properties of the evaluator\<close>

text \<open>
  Claim C7, as the code has it. The evaluation is \<open>WIN_SCORE\<close> whenever the opponent has
  no piece, and \<open>- WIN_SCORE\<close> when the player has no piece and the opponent has one; both
  are decided from the two piece lists alone, before any piece is valued.
\<close>

theorem evaluate_terminal:
  "(getPieces board (opponentOf player) = [] \<longrightarrow> evaluate board player = WIN_SCORE)
   \<and> (getPieces board player = [] \<and> getPieces board (opponentOf player) \<noteq> [] \<longrightarrow>
        evaluate board player = - WIN_SCORE)"
  by (simp add: evaluate_def Let_def)

theorem evaluate_terminal_witness:
  "getPieces loneRedBoard (opponentOf Red) = [] \<and> evaluate loneRedBoard Red = WIN_SCORE
   \<and> getPieces loneRedBoard Black = [] \<and> getPieces loneRedBoard (opponentOf Black) \<noteq> []
   \<and> evaluate loneRedBoard Black = - WIN_SCORE"
proof -
  have a: "getPieces loneRedBoard (opponentOf Red) = []" by code_simp
  have b: "getPieces loneRedBoard Black = []" by code_simp
  have c: "getPieces loneRedBoard (opponentOf Black) \<noteq> []" by code_simp
  from evaluate_terminal [of loneRedBoard Red] evaluate_terminal [of loneRedBoard Black] a b c
  show ?thesis by blast
qed

lemma getPieces_emptyBoard: "getPieces emptyBoard player = []"
  by (simp add: getPieces_def emptyBoard_def)

text \<open>
  Claim C7 as stated fails on the empty board: the player has no piece and the evaluation is
  \<open>WIN_SCORE\<close>, not its negation, because the opponent's list is tested first.
\<close>

theorem evaluate_empty_counterexample:
  "getPieces emptyBoard Red = [] \<and> evaluate emptyBoard Red = WIN_SCORE \<and> WIN_SCORE \<noteq> - WIN_SCORE"
  by (simp add: getPieces_emptyBoard evaluate_def Let_def WIN_SCORE_def)

text \<open>Claim C9: the starting board evaluates to exactly 0 for each of the two players.\<close>

theorem evaluate_initialBoard: "evaluate initialBoard Red = 0 \<and> evaluate initialBoard Black = 0"
  by code_simp

section \<open>Properties of the search\<close>

subsection \<open>The order of the scores\<close>

lemma max_step_cut:
  assumes "alpha0 < beta" "maxEval < beta" "agrees (max alpha0 maxEval) beta v f"
    and "beta \<le> max (max alpha0 maxEval) v" "max t f \<le> F"
  shows "agrees alpha0 beta (max maxEval v) F"
proof -
  from assms(1,2,4) have bv: "beta \<le> v" by (auto simp: max_def split: if_splits)
  with assms(3) have "v \<le> f" by (simp add: agrees_def)
  with assms(5) have "v \<le> F" by (simp add: max_def split: if_splits)
  moreover from bv assms(2) have "max maxEval v = v" by (auto simp: max_def)
  ultimately show ?thesis using bv assms(1) by (auto simp: agrees_def)
qed

lemma max_step_next:
  assumes "alpha0 < beta" "maxEval < beta" "agrees alpha0 beta maxEval t"
    and "agrees (max alpha0 maxEval) beta v f" "\<not> beta \<le> max (max alpha0 maxEval) v"
  shows "agrees alpha0 beta (max maxEval v) (max t f) \<and> max maxEval v < beta
     \<and> max (max alpha0 maxEval) v = max alpha0 (max maxEval v)"
proof -
  from assms(5) have vb: "v < beta" by (simp add: not_le)
  consider "maxEval \<le> alpha0" "v \<le> alpha0" | "maxEval \<le> alpha0" "alpha0 < v"
    | "alpha0 < maxEval" "v \<le> maxEval" | "alpha0 < maxEval" "maxEval < v"
    by (meson not_le)
  then show ?thesis
  proof cases
    case 1
    with assms vb show ?thesis by (auto simp: agrees_def max_def)
  next
    case 2
    with assms vb show ?thesis by (auto simp: agrees_def max_def)
  next
    case 3
    with assms vb show ?thesis by (auto simp: agrees_def max_def)
  next
    case 4
    with assms vb show ?thesis by (auto simp: agrees_def max_def)
  qed
qed

lemma min_step_cut:
  assumes "alpha < beta0" "alpha < minEval" "agrees alpha (min beta0 minEval) v f"
    and "min (min beta0 minEval) v \<le> alpha" "F \<le> min t f"
  shows "agrees alpha beta0 (min minEval v) F"
proof -
  from assms(1,2,4) have va: "v \<le> alpha" by (auto simp: min_def split: if_splits)
  with assms(3) have "f \<le> v" by (simp add: agrees_def)
  with assms(5) have "F \<le> v" by (simp add: min_def split: if_splits)
  moreover from va assms(2) have "min minEval v = v" by (auto simp: min_def)
  ultimately show ?thesis using va assms(1) by (auto simp: agrees_def)
qed

lemma min_step_next:
  assumes "alpha < beta0" "alpha < minEval" "agrees alpha beta0 minEval t"
    and "agrees alpha (min beta0 minEval) v f" "\<not> min (min beta0 minEval) v \<le> alpha"
  shows "agrees alpha beta0 (min minEval v) (min t f) \<and> alpha < min minEval v
     \<and> min (min beta0 minEval) v = min beta0 (min minEval v)"
proof -
  from assms(5) have av: "alpha < v" by (simp add: not_le)
  consider "beta0 \<le> minEval" "beta0 \<le> v" | "beta0 \<le> minEval" "v < beta0"
    | "minEval < beta0" "minEval \<le> v" | "minEval < beta0" "v < minEval"
    by (meson not_le)
  then show ?thesis
  proof cases
    case 1
    with assms av show ?thesis by (auto simp: agrees_def min_def)
  next
    case 2
    with assms av show ?thesis by (auto simp: agrees_def min_def)
  next
    case 3
    with assms av show ?thesis by (auto simp: agrees_def min_def)
  next
    case 4
    with assms av show ?thesis by (auto simp: agrees_def min_def)
  qed
qed

lemma agrees_refl: "agrees alpha beta v v"
  by (simp add: agrees_def)

lemma less_Infinity: "(x < Infinity) = (x \<noteq> Infinity)"
  by (cases x) (auto simp: less_number_def)

lemma NegInfinity_less: "(NegInfinity < x) = (x \<noteq> NegInfinity)"
  by (cases x) (auto simp: less_number_def)

lemma le_Infinity [simp]: "x \<le> Infinity"
  by (cases x) auto

lemma le_NegInfinity [simp]: "(x \<le> NegInfinity) = (x = NegInfinity)"
  by (cases x) auto

lemma Infinity_le [simp]: "(Infinity \<le> x) = (x = Infinity)"
  by (cases x) auto

lemma not_less_NegInfinity [simp]: "\<not> x < NegInfinity"
  by (simp add: less_number_def)

lemma not_Infinity_less [simp]: "\<not> Infinity < x"
  by (simp add: less_number_def)

subsection \<open>The loops\<close>

lemma maxAll_total:
  assumes "\<forall>pm \<in> set moves. childOk rec recF board pm"
  shows "\<exists>f. maxAll recF board moves t = Inr f \<and> t \<le> f
     \<and> (t \<noteq> Infinity \<longrightarrow> f \<noteq> Infinity) \<and> (moves \<noteq> [] \<longrightarrow> f \<noteq> NegInfinity)"
  using assms
proof (induction moves arbitrary: t)
  case Nil
  then show ?case by simp
next
  case (Cons pm moves)
  from Cons.prems have "childOk rec recF board pm" by simp
  then obtain nb f where
    c: "execute (clone board) (fromRow pm) (fromCol pm) (move pm) = Inr nb" "recF nb = Inr f"
      "f \<noteq> Infinity" "f \<noteq> NegInfinity"
    unfolding childOk_def by blast
  from Cons.IH [of "max t f"] Cons.prems obtain F where
    F: "maxAll recF board moves (max t f) = Inr F" "max t f \<le> F"
      "max t f \<noteq> Infinity \<longrightarrow> F \<noteq> Infinity"
    by auto
  have "F \<noteq> NegInfinity"
    using F(2) c(4) by (cases F; cases f; cases t) (auto simp: max_def split: if_splits)
  moreover have "t \<noteq> Infinity \<longrightarrow> max t f \<noteq> Infinity"
    using c(3) by (simp add: max_def)
  ultimately show ?case
    using c F by auto
qed

lemma minAll_total:
  assumes "\<forall>pm \<in> set moves. childOk rec recF board pm"
  shows "\<exists>f. minAll recF board moves t = Inr f \<and> f \<le> t
     \<and> (t \<noteq> NegInfinity \<longrightarrow> f \<noteq> NegInfinity) \<and> (moves \<noteq> [] \<longrightarrow> f \<noteq> Infinity)"
  using assms
proof (induction moves arbitrary: t)
  case Nil
  then show ?case by simp
next
  case (Cons pm moves)
  from Cons.prems have "childOk rec recF board pm" by simp
  then obtain nb f where
    c: "execute (clone board) (fromRow pm) (fromCol pm) (move pm) = Inr nb" "recF nb = Inr f"
      "f \<noteq> Infinity" "f \<noteq> NegInfinity"
    unfolding childOk_def by blast
  from Cons.IH [of "min t f"] Cons.prems obtain F where
    F: "minAll recF board moves (min t f) = Inr F" "F \<le> min t f"
      "min t f \<noteq> NegInfinity \<longrightarrow> F \<noteq> NegInfinity"
    by auto
  have "F \<noteq> Infinity"
    using F(2) c(3) by (cases F; cases f; cases t) (auto simp: min_def split: if_splits)
  moreover have "t \<noteq> NegInfinity \<longrightarrow> min t f \<noteq> NegInfinity"
    using c(4) by (simp add: min_def)
  ultimately show ?case
    using c F by auto
qed

lemma maxLoop_agrees:
  assumes "\<forall>pm \<in> set moves. childOk rec recF board pm"
    and "alpha0 < beta" and "maxEval < beta" and "agrees alpha0 beta maxEval t"
  shows "\<exists>v f. maxLoop rec board moves (max alpha0 maxEval) beta maxEval = Inr v
     \<and> maxAll recF board moves t = Inr f \<and> agrees alpha0 beta v f"
  using assms
proof (induction moves arbitrary: maxEval t)
  case Nil
  then show ?case by simp
next
  case (Cons pm moves)
  have ab: "max alpha0 maxEval < beta"
    using Cons.prems(2,3) by simp
  from Cons.prems(1) have "childOk rec recF board pm" by simp
  then obtain nb f where
    c0: "execute (clone board) (fromRow pm) (fromCol pm) (move pm) = Inr nb" "recF nb = Inr f"
    and win: "\<forall>a b. a < b \<longrightarrow> (\<exists>v. rec nb a b = Inr v \<and> agrees a b v f)"
    unfolding childOk_def by blast
  from win ab obtain v where
    c1: "rec nb (max alpha0 maxEval) beta = Inr v" "agrees (max alpha0 maxEval) beta v f"
    by blast
  note c = c0 c1
  show ?case
  proof (cases "beta \<le> max (max alpha0 maxEval) v")
    case True
    from maxAll_total [of moves rec recF board "max t f"] Cons.prems(1) obtain F where
      F: "maxAll recF board moves (max t f) = Inr F" "max t f \<le> F"
      by auto
    from max_step_cut [OF Cons.prems(2,3) c(4) True F(2)]
    have "agrees alpha0 beta (max maxEval v) F" .
    with c True F(1) show ?thesis by (simp add: Let_def)
  next
    case False
    from max_step_next [OF Cons.prems(2,3,4) c(4) False]
    have n: "agrees alpha0 beta (max maxEval v) (max t f)" "max maxEval v < beta"
      "max (max alpha0 maxEval) v = max alpha0 (max maxEval v)"
      by auto
    from Cons.IH [OF _ Cons.prems(2) n(2) n(1)] Cons.prems(1)
    obtain v' f' where
      "maxLoop rec board moves (max alpha0 (max maxEval v)) beta (max maxEval v) = Inr v'"
      "maxAll recF board moves (max t f) = Inr f'" "agrees alpha0 beta v' f'"
      by auto
    with c False n(3) show ?thesis by (simp add: Let_def)
  qed
qed

lemma minLoop_agrees:
  assumes "\<forall>pm \<in> set moves. childOk rec recF board pm"
    and "alpha < beta0" and "alpha < minEval" and "agrees alpha beta0 minEval t"
  shows "\<exists>v f. minLoop rec board moves alpha (min beta0 minEval) minEval = Inr v
     \<and> minAll recF board moves t = Inr f \<and> agrees alpha beta0 v f"
  using assms
proof (induction moves arbitrary: minEval t)
  case Nil
  then show ?case by simp
next
  case (Cons pm moves)
  have ab: "alpha < min beta0 minEval"
    using Cons.prems(2,3) by simp
  from Cons.prems(1) have "childOk rec recF board pm" by simp
  then obtain nb f where
    c0: "execute (clone board) (fromRow pm) (fromCol pm) (move pm) = Inr nb" "recF nb = Inr f"
    and win: "\<forall>a b. a < b \<longrightarrow> (\<exists>v. rec nb a b = Inr v \<and> agrees a b v f)"
    unfolding childOk_def by blast
  from win ab obtain v where
    c1: "rec nb alpha (min beta0 minEval) = Inr v" "agrees alpha (min beta0 minEval) v f"
    by blast
  note c = c0 c1
  show ?case
  proof (cases "min (min beta0 minEval) v \<le> alpha")
    case True
    from minAll_total [of moves rec recF board "min t f"] Cons.prems(1) obtain F where
      F: "minAll recF board moves (min t f) = Inr F" "F \<le> min t f"
      by auto
    from min_step_cut [OF Cons.prems(2,3) c(4) True F(2)]
    have "agrees alpha beta0 (min minEval v) F" .
    with c True F(1) show ?thesis by (simp add: Let_def)
  next
    case False
    from min_step_next [OF Cons.prems(2,3,4) c(4) False]
    have n: "agrees alpha beta0 (min minEval v) (min t f)" "alpha < min minEval v"
      "min (min beta0 minEval) v = min beta0 (min minEval v)"
      by auto
    from Cons.IH [OF _ Cons.prems(2) n(2) n(1)] Cons.prems(1)
    obtain v' f' where
      "minLoop rec board moves alpha (min beta0 (min minEval v)) (min minEval v) = Inr v'"
      "minAll recF board moves (min t f) = Inr f'" "agrees alpha beta0 v' f'"
      by auto
    with c False n(3) show ?thesis by (simp add: Let_def)
  qed
qed

subsection \<open>The recursion\<close>

lemma execute_total:
  assumes "inRange fr" "inRange (toRow m)"
  shows "\<exists>nb. execute board fr fc m = Inr nb"
  using assms by (auto simp: execute_def movePiece_def Let_def split: option.splits prod.splits)

lemma getAllValidMoves_execute:
  assumes "pm \<in> set (getAllValidMoves board player)"
  shows "\<exists>nb. execute (clone board) (fromRow pm) (fromCol pm) (move pm) = Inr nb"
proof -
  from getAllValidMoves_elem [OF assms] obtain piece where
    p: "(piece, fromRow pm, fromCol pm) \<in> set (getPieces board player)"
    and m: "move pm \<in> set (getCaptureMoves board (fromRow pm) (fromCol pm) player (ptype piece))
        \<or> move pm \<in> set (getRegularMoves board (fromRow pm) (fromCol pm) player (ptype piece))"
    by blast
  from getPieces_elem [OF p] have fr: "inRange (fromRow pm)" by simp
  from m have "isValidPosition (toRow (move pm)) (toCol (move pm))"
    by (auto dest!: getCaptureMoves_elem getRegularMoves_elem)
  then have "inRange (toRow (move pm))"
    by (simp add: isValidPosition_def inRange_def)
  with fr show ?thesis by (rule execute_total)
qed

lemma minimax_agrees:
  assumes "Suc d \<le> stack" and "alpha < beta"
  shows "\<exists>v f. minimax stack board (int d) alpha beta isMaximizing player = Inr v
     \<and> fullMinimax d board isMaximizing player = Inr f
     \<and> f \<noteq> Infinity \<and> f \<noteq> NegInfinity \<and> agrees alpha beta v f"
  using assms
proof (induction d arbitrary: stack board alpha beta isMaximizing)
  case 0
  then obtain s where "stack = Suc s" by (cases stack) auto
  then show ?case by (simp add: agrees_refl Let_def)
next
  case (Suc d)
  from Suc.prems(1) obtain s where s: "stack = Suc s" "Suc d \<le> s"
    by (cases stack) auto
  let ?current = "if isMaximizing then player else opponentOf player"
  let ?moves = "getAllValidMoves board ?current"
  let ?rec = "\<lambda>isMax newBoard a b. minimax s newBoard (int d) a b isMax player"
  let ?recF = "\<lambda>isMax newBoard. fullMinimax d newBoard isMax player"
  have child: "childOk (?rec isMax) (?recF isMax) board pm" if "pm \<in> set ?moves" for pm isMax
  proof -
    from getAllValidMoves_execute [OF that] obtain nb where
      nb: "execute (clone board) (fromRow pm) (fromCol pm) (move pm) = Inr nb" by blast
    have lt: "NegInfinity < Infinity" by (simp add: less_number_def)
    from Suc.IH [OF s(2) lt, of nb isMax] obtain f where
      f: "fullMinimax d nb isMax player = Inr f" "f \<noteq> Infinity" "f \<noteq> NegInfinity"
      by blast
    have "\<exists>v. minimax s nb (int d) a b isMax player = Inr v \<and> agrees a b v f" if "a < b" for a b
      using Suc.IH [OF s(2) that, of nb isMax] f(1) by auto
    with nb f show ?thesis
      unfolding childOk_def by blast
  qed
  have depth: "int (Suc d) \<noteq> 0" "int (Suc d) - 1 = int d" by simp_all
  show ?case
  proof (cases "?moves = []")
    case True
    then show ?thesis
      unfolding s(1) by (simp add: agrees_refl Let_def)
  next
    case False
    show ?thesis
    proof (cases isMaximizing)
      case True
      have init: "agrees alpha beta NegInfinity NegInfinity" "NegInfinity < beta"
        "max alpha NegInfinity = alpha"
        using Suc.prems(2) by (auto simp: agrees_def max_def NegInfinity_less)
      from maxLoop_agrees [of ?moves "?rec False" "?recF False" board alpha beta NegInfinity NegInfinity]
        child [of _ False] Suc.prems(2) init
      obtain v f where
        vf: "maxLoop (?rec False) board ?moves alpha beta NegInfinity = Inr v"
          "maxAll (?recF False) board ?moves NegInfinity = Inr f" "agrees alpha beta v f"
        by auto
      from maxAll_total [of ?moves "?rec False" "?recF False" board NegInfinity] child [of _ False] vf(2) False
      have "f \<noteq> Infinity" "f \<noteq> NegInfinity" by auto
      with vf True False show ?thesis
        unfolding s(1) by (simp add: Let_def depth(2) del: of_nat_Suc)
    next
      case isMin: False
      have init: "agrees alpha beta Infinity Infinity" "alpha < Infinity"
        "min beta Infinity = beta"
        using Suc.prems(2) by (auto simp: agrees_def min_def less_Infinity)
      from minLoop_agrees [of ?moves "?rec True" "?recF True" board alpha beta Infinity Infinity]
        child [of _ True] Suc.prems(2) init
      obtain v f where
        vf: "minLoop (?rec True) board ?moves alpha beta Infinity = Inr v"
          "minAll (?recF True) board ?moves Infinity = Inr f" "agrees alpha beta v f"
        by auto
      from minAll_total [of ?moves "?rec True" "?recF True" board Infinity] child [of _ True] vf(2) False
      have "f \<noteq> Infinity" "f \<noteq> NegInfinity" by auto
      with vf isMin False show ?thesis
        unfolding s(1) by (simp add: Let_def depth(2) del: of_nat_Suc)
    qed
  qed
qed

subsection \<open>The top level\<close>

lemma root_step:
  assumes "alpha \<noteq> Infinity" "f \<noteq> Infinity" "agrees alpha Infinity v f"
  shows "max alpha v = max alpha f \<and> max alpha v \<noteq> Infinity"
proof (cases "v \<le> alpha")
  case True
  with assms show ?thesis by (auto simp: agrees_def max_def)
next
  case False
  then have av: "alpha < v" by simp
  have "v \<noteq> Infinity"
  proof
    assume "v = Infinity"
    with assms(3) have "Infinity \<le> f" by (simp add: agrees_def)
    with assms(2) show False by simp
  qed
  with av assms(3) have "v = f" by (simp add: agrees_def less_Infinity)
  with av \<open>v \<noteq> Infinity\<close> show ?thesis by (auto simp: max_def)
qed

lemma bestLoop_result:
  assumes "bestLoop rec board moves alpha beta bestResult = Inr res"
  shows "(res = None \<longrightarrow> moves = [] \<and> bestResult = None)
     \<and> (\<forall>r. res = Some r \<longrightarrow> bestResult = Some r \<or> candidate r \<in> set moves)"
  using assms
proof (induction moves arbitrary: alpha bestResult)
  case Nil
  then show ?case by simp
next
  case (Cons pm moves)
  from Cons.prems obtain nb sc where
    nb: "execute (clone board) (fromRow pm) (fromCol pm) (move pm) = Inr nb"
    and sc: "rec nb alpha beta = Inr sc"
    by (auto split: sum.splits)
  let ?best = "if (case bestResult of None \<Rightarrow> True | Some br \<Rightarrow> sc > score br)
                then Some \<lparr>fromRow = fromRow pm, fromCol = fromCol pm, move = move pm, score = sc\<rparr>
                else bestResult"
  from Cons.prems nb sc have "bestLoop rec board moves (max alpha sc) beta ?best = Inr res"
    by (simp add: Let_def)
  from Cons.IH [OF this] show ?case
    by (auto simp: candidate_def split: if_splits option.splits)
qed

lemma bestLoop_value:
  assumes "\<forall>pm \<in> set moves. childOk rec recF board pm"
    and "alpha \<noteq> Infinity"
    and "case bestResult of None \<Rightarrow> alpha = NegInfinity | Some br \<Rightarrow> score br = alpha"
  shows "\<exists>res f. bestLoop rec board moves alpha Infinity bestResult = Inr res
     \<and> maxAll recF board moves alpha = Inr f
     \<and> (case res of None \<Rightarrow> moves = [] \<and> bestResult = None | Some r \<Rightarrow> score r = f)"
  using assms
proof (induction moves arbitrary: alpha bestResult)
  case Nil
  then show ?case by (simp split: option.splits)
next
  case (Cons pm moves)
  from Cons.prems(1) have "childOk rec recF board pm" by simp
  then obtain nb f where
    c0: "execute (clone board) (fromRow pm) (fromCol pm) (move pm) = Inr nb" "recF nb = Inr f"
      "f \<noteq> Infinity"
    and win: "\<forall>a b. a < b \<longrightarrow> (\<exists>v. rec nb a b = Inr v \<and> agrees a b v f)"
    unfolding childOk_def by blast
  from Cons.prems(2) have "alpha < Infinity" by (simp add: less_Infinity)
  with win obtain v where v: "rec nb alpha Infinity = Inr v" "agrees alpha Infinity v f"
    by blast
  from root_step [OF Cons.prems(2) c0(3) v(2)]
  have m: "max alpha v = max alpha f" "max alpha v \<noteq> Infinity" by auto
  let ?best = "if (case bestResult of None \<Rightarrow> True | Some br \<Rightarrow> v > score br)
                then Some \<lparr>fromRow = fromRow pm, fromCol = fromCol pm, move = move pm, score = v\<rparr>
                else bestResult"
  have inv: "case ?best of None \<Rightarrow> max alpha v = NegInfinity | Some br \<Rightarrow> score br = max alpha v"
    using Cons.prems(3) by (auto simp: max_def split: option.splits)
  from Cons.IH [OF _ m(2) inv] Cons.prems(1) obtain res F where
    r: "bestLoop rec board moves (max alpha v) Infinity ?best = Inr res"
      "maxAll recF board moves (max alpha v) = Inr F"
      "case res of None \<Rightarrow> moves = [] \<and> ?best = None | Some r \<Rightarrow> score r = F"
    by auto
  from r(3) have "case res of None \<Rightarrow> False | Some r \<Rightarrow> score r = F"
    by (auto split: option.splits if_splits)
  with r(1,2) c0 v(1) m(1) show ?case
    by (auto simp: Let_def split: option.splits)
qed

lemma findBestMove_value:
  assumes "1 \<le> depth" and "nat depth \<le> stack" and "getAllValidMoves board player \<noteq> []"
  shows "\<exists>r. findBestMove stack board player depth = Inr (Some r)
     \<and> fullMinimax (nat depth) board True player = Inr (score r)
     \<and> candidate r \<in> set (getAllValidMoves board player)"
proof -
  define d where "d = nat (depth - 1)"
  from assms(1,2) have d: "depth - 1 = int d" "nat depth = Suc d" "Suc d \<le> stack"
    by (auto simp: d_def)
  let ?moves = "getAllValidMoves board player"
  let ?rec = "\<lambda>newBoard a b. minimax stack newBoard (int d) a b False player"
  let ?recF = "\<lambda>newBoard. fullMinimax d newBoard False player"
  have child: "childOk ?rec ?recF board pm" if "pm \<in> set ?moves" for pm
  proof -
    from getAllValidMoves_execute [OF that] obtain nb where
      nb: "execute (clone board) (fromRow pm) (fromCol pm) (move pm) = Inr nb" by blast
    have lt: "NegInfinity < Infinity" by (simp add: less_number_def)
    from minimax_agrees [OF d(3) lt, of nb False player] obtain f where
      f: "fullMinimax d nb False player = Inr f" "f \<noteq> Infinity" "f \<noteq> NegInfinity"
      by blast
    have "\<exists>v. minimax stack nb (int d) a b False player = Inr v \<and> agrees a b v f" if "a < b" for a b
      using minimax_agrees [OF d(3) that, of nb False player] f(1) by auto
    with nb f show ?thesis
      unfolding childOk_def by blast
  qed
  from bestLoop_value [of ?moves ?rec ?recF board NegInfinity None] child
  obtain res f where
    r: "bestLoop ?rec board ?moves NegInfinity Infinity None = Inr res"
      "maxAll ?recF board ?moves NegInfinity = Inr f"
      "case res of None \<Rightarrow> ?moves = [] \<and> None = (None :: SearchResult option) | Some r \<Rightarrow> score r = f"
    by auto
  from r(3) assms(3) obtain br where br: "res = Some br" "score br = f"
    by (cases res) auto
  from bestLoop_result [OF r(1)] br have "candidate br \<in> set ?moves" by simp
  moreover have "findBestMove stack board player depth = Inr (Some br)"
    using r(1) br assms(3) by (simp add: findBestMove_def Let_def d(1))
  moreover have "fullMinimax (nat depth) board True player = Inr (score br)"
    using r(2) br assms(3) by (simp add: d(2) Let_def)
  ultimately show ?thesis by blast
qed

subsection \<open>Errors and the call stack\<close>

text \<open>
  The search raises nothing but the \<open>RangeError\<close> of an exhausted call stack, and a
  value that it returns on one call stack it returns on every deeper one.
\<close>

lemma maxLoop_error:
  assumes "maxLoop rec board moves alpha beta maxEval = Inl e"
    and "\<forall>pm \<in> set moves. \<exists>nb. execute (clone board) (fromRow pm) (fromCol pm) (move pm) = Inr nb"
    and "\<And>nb a b e'. rec nb a b = Inl e' \<Longrightarrow> e' = RangeError"
  shows "e = RangeError"
  using assms(1,2)
proof (induction moves arbitrary: alpha maxEval)
  case Nil
  then show ?case by simp
next
  case (Cons pm moves)
  from Cons.prems(2) obtain nb where
    nb: "execute (clone board) (fromRow pm) (fromCol pm) (move pm) = Inr nb" by auto
  show ?case
  proof (cases "rec nb alpha beta")
    case (Inl e')
    with Cons.prems(1) nb assms(3) [OF Inl] show ?thesis by simp
  next
    case (Inr v)
    with Cons.prems nb Cons.IH [of "max alpha v" "max maxEval v"] show ?thesis
      by (auto simp: Let_def split: if_splits)
  qed
qed

lemma minLoop_error:
  assumes "minLoop rec board moves alpha beta minEval = Inl e"
    and "\<forall>pm \<in> set moves. \<exists>nb. execute (clone board) (fromRow pm) (fromCol pm) (move pm) = Inr nb"
    and "\<And>nb a b e'. rec nb a b = Inl e' \<Longrightarrow> e' = RangeError"
  shows "e = RangeError"
  using assms(1,2)
proof (induction moves arbitrary: beta minEval)
  case Nil
  then show ?case by simp
next
  case (Cons pm moves)
  from Cons.prems(2) obtain nb where
    nb: "execute (clone board) (fromRow pm) (fromCol pm) (move pm) = Inr nb" by auto
  show ?case
  proof (cases "rec nb alpha beta")
    case (Inl e')
    with Cons.prems(1) nb assms(3) [OF Inl] show ?thesis by simp
  next
    case (Inr v)
    with Cons.prems nb Cons.IH [of "min beta v" "min minEval v"] show ?thesis
      by (auto simp: Let_def split: if_splits)
  qed
qed

lemma bestLoop_error:
  assumes "bestLoop rec board moves alpha beta bestResult = Inl e"
    and "\<forall>pm \<in> set moves. \<exists>nb. execute (clone board) (fromRow pm) (fromCol pm) (move pm) = Inr nb"
    and "\<And>nb a b e'. rec nb a b = Inl e' \<Longrightarrow> e' = RangeError"
  shows "e = RangeError"
  using assms(1,2)
proof (induction moves arbitrary: alpha bestResult)
  case Nil
  then show ?case by simp
next
  case (Cons pm moves)
  from Cons.prems(2) obtain nb where
    nb: "execute (clone board) (fromRow pm) (fromCol pm) (move pm) = Inr nb" by auto
  show ?case
  proof (cases "rec nb alpha beta")
    case (Inl e')
    with Cons.prems(1) nb assms(3) [OF Inl] show ?thesis by simp
  next
    case (Inr v)
    with Cons.prems nb show ?thesis
      by (auto simp: Let_def intro: Cons.IH)
  qed
qed

lemma minimax_error:
  "minimax stack board depth alpha beta isMaximizing player = Inl e \<Longrightarrow> e = RangeError"
proof (induction stack arbitrary: board depth alpha beta isMaximizing e)
  case 0
  then show ?case by simp
next
  case (Suc stack)
  let ?moves = "getAllValidMoves board (if isMaximizing then player else opponentOf player)"
  have ex: "\<forall>pm \<in> set ?moves. \<exists>nb. execute (clone board) (fromRow pm) (fromCol pm) (move pm) = Inr nb"
    using getAllValidMoves_execute by blast
  from Suc.prems have run: "depth \<noteq> 0" "?moves \<noteq> []"
    by (auto simp: Let_def split: if_splits)
  show ?case
  proof (cases isMaximizing)
    case True
    with Suc.prems run have
      "maxLoop (\<lambda>newBoard alpha beta. minimax stack newBoard (depth - 1) alpha beta False player)
         board ?moves alpha beta NegInfinity = Inl e"
      by (simp add: Let_def)
    then show ?thesis
      using ex by (rule maxLoop_error) (erule Suc.IH)
  next
    case False
    with Suc.prems run have
      "minLoop (\<lambda>newBoard alpha beta. minimax stack newBoard (depth - 1) alpha beta True player)
         board ?moves alpha beta Infinity = Inl e"
      by (simp add: Let_def)
    then show ?thesis
      using ex by (rule minLoop_error) (erule Suc.IH)
  qed
qed

lemma findBestMove_error:
  assumes "findBestMove stack board player depth = Inl e"
  shows "e = RangeError"
proof -
  have ex: "\<forall>pm \<in> set (getAllValidMoves board player).
      \<exists>nb. execute (clone board) (fromRow pm) (fromCol pm) (move pm) = Inr nb"
    using getAllValidMoves_execute by blast
  from assms have
    "bestLoop (\<lambda>newBoard alpha beta. minimax stack newBoard (depth - 1) alpha beta False player)
       board (getAllValidMoves board player) NegInfinity Infinity None = Inl e"
    by (simp add: findBestMove_def Let_def split: if_splits)
  then show ?thesis
    using ex by (rule bestLoop_error) (erule minimax_error)
qed

lemma maxLoop_mono:
  assumes "maxLoop rec board moves alpha beta maxEval = Inr v"
    and "\<And>nb a b w. rec nb a b = Inr w \<Longrightarrow> rec' nb a b = Inr w"
  shows "maxLoop rec' board moves alpha beta maxEval = Inr v"
  using assms(1)
proof (induction moves arbitrary: alpha maxEval)
  case Nil
  then show ?case by simp
next
  case (Cons pm moves)
  from Cons.prems obtain nb w where
    nb: "execute (clone board) (fromRow pm) (fromCol pm) (move pm) = Inr nb"
    and w: "rec nb alpha beta = Inr w"
    by (auto split: sum.splits)
  from assms(2) [OF w] Cons.prems nb w Cons.IH [of "max alpha w" "max maxEval w"]
  show ?case by (auto simp: Let_def split: if_splits)
qed

lemma minLoop_mono:
  assumes "minLoop rec board moves alpha beta minEval = Inr v"
    and "\<And>nb a b w. rec nb a b = Inr w \<Longrightarrow> rec' nb a b = Inr w"
  shows "minLoop rec' board moves alpha beta minEval = Inr v"
  using assms(1)
proof (induction moves arbitrary: beta minEval)
  case Nil
  then show ?case by simp
next
  case (Cons pm moves)
  from Cons.prems obtain nb w where
    nb: "execute (clone board) (fromRow pm) (fromCol pm) (move pm) = Inr nb"
    and w: "rec nb alpha beta = Inr w"
    by (auto split: sum.splits)
  from assms(2) [OF w] Cons.prems nb w Cons.IH [of "min beta w" "min minEval w"]
  show ?case by (auto simp: Let_def split: if_splits)
qed

lemma bestLoop_mono:
  assumes "bestLoop rec board moves alpha beta bestResult = Inr res"
    and "\<And>nb a b w. rec nb a b = Inr w \<Longrightarrow> rec' nb a b = Inr w"
  shows "bestLoop rec' board moves alpha beta bestResult = Inr res"
  using assms(1)
proof (induction moves arbitrary: alpha bestResult)
  case Nil
  then show ?case by simp
next
  case (Cons pm moves)
  from Cons.prems obtain nb w where
    nb: "execute (clone board) (fromRow pm) (fromCol pm) (move pm) = Inr nb"
    and w: "rec nb alpha beta = Inr w"
    by (auto split: sum.splits)
  from assms(2) [OF w] Cons.prems nb w show ?case
    by (auto simp: Let_def intro: Cons.IH)
qed

lemma minimax_Suc:
  "minimax stack board depth alpha beta isMaximizing player = Inr v \<Longrightarrow>
     minimax (Suc stack) board depth alpha beta isMaximizing player = Inr v"
proof (induction stack arbitrary: board depth alpha beta isMaximizing v)
  case 0
  then show ?case by simp
next
  case (Suc stack)
  let ?moves = "getAllValidMoves board (if isMaximizing then player else opponentOf player)"
  show ?case
  proof (cases "depth = 0 \<or> ?moves = []")
    case True
    with Suc.prems show ?thesis by (auto simp: Let_def)
  next
    case False
    show ?thesis
    proof (cases isMaximizing)
      case True
      with Suc.prems False have
        "maxLoop (\<lambda>newBoard alpha beta. minimax stack newBoard (depth - 1) alpha beta False player)
           board ?moves alpha beta NegInfinity = Inr v"
        by (simp add: Let_def)
      then have
        "maxLoop (\<lambda>newBoard alpha beta. minimax (Suc stack) newBoard (depth - 1) alpha beta False player)
           board ?moves alpha beta NegInfinity = Inr v"
        by (rule maxLoop_mono) (erule Suc.IH)
      with True False show ?thesis
        by (subst minimax.simps) (simp add: Let_def)
    next
      case isMin: False
      with Suc.prems False have
        "minLoop (\<lambda>newBoard alpha beta. minimax stack newBoard (depth - 1) alpha beta True player)
           board ?moves alpha beta Infinity = Inr v"
        by (simp add: Let_def)
      then have
        "minLoop (\<lambda>newBoard alpha beta. minimax (Suc stack) newBoard (depth - 1) alpha beta True player)
           board ?moves alpha beta Infinity = Inr v"
        by (rule minLoop_mono) (erule Suc.IH)
      with isMin False show ?thesis
        by (subst minimax.simps) (simp add: Let_def)
    qed
  qed
qed

lemma minimax_mono:
  assumes "minimax stack board depth alpha beta isMaximizing player = Inr v" and "stack \<le> stack'"
  shows "minimax stack' board depth alpha beta isMaximizing player = Inr v"
  using assms(2,1)
proof (induction rule: dec_induct)
  case base
  then show ?case .
next
  case (step n)
  from step.IH [OF step.prems] show ?case by (rule minimax_Suc)
qed

lemma findBestMove_mono:
  assumes "findBestMove stack board player depth = Inr res" and "stack \<le> stack'"
  shows "findBestMove stack' board player depth = Inr res"
proof (cases "getAllValidMoves board player = []")
  case True
  with assms(1) show ?thesis by (simp add: findBestMove_def)
next
  case False
  with assms(1) have
    "bestLoop (\<lambda>newBoard alpha beta. minimax stack newBoard (depth - 1) alpha beta False player)
       board (getAllValidMoves board player) NegInfinity Infinity None = Inr res"
    by (simp add: findBestMove_def Let_def)
  then have
    "bestLoop (\<lambda>newBoard alpha beta. minimax stack' newBoard (depth - 1) alpha beta False player)
       board (getAllValidMoves board player) NegInfinity Infinity None = Inr res"
    by (rule bestLoop_mono) (erule minimax_mono [OF _ assms(2)])
  with False show ?thesis by (simp add: findBestMove_def Let_def)
qed

lemma findBestMove_score:
  assumes "1 \<le> depth" and "findBestMove stack board player depth = Inr (Some r)"
  shows "fullMinimax (nat depth) board True player = Inr (score r)"
proof -
  from assms(2) bestLoop_result have moves: "getAllValidMoves board player \<noteq> []"
    by (auto simp: findBestMove_def)
  from findBestMove_mono [OF assms(2), of "max stack (nat depth)"]
  have "findBestMove (max stack (nat depth)) board player depth = Inr (Some r)" by simp
  moreover from findBestMove_value [OF assms(1) _ moves, of "max stack (nat depth)"]
  obtain r' where "findBestMove (max stack (nat depth)) board player depth = Inr (Some r')"
    "fullMinimax (nat depth) board True player = Inr (score r')"
    by auto
  ultimately show ?thesis by simp
qed

subsection \<open>The claims\<close>

text \<open>
  Claim C1. For a depth of at least 1: whenever \<open>findBestMove\<close> returns a result, on
  whatever call stack, the score of the result is the value of the unpruned minimax
  traversal of the same tree to the same depth; and it does return a result when the
  player has a move and the call stack holds \<open>depth\<close> frames.
\<close>

theorem alpha_beta_equals_full_minimax:
  assumes "1 \<le> depth"
  shows "(\<forall>r. findBestMove stack board player depth = Inr (Some r) \<longrightarrow>
            fullMinimax (nat depth) board True player = Inr (score r))
     \<and> (nat depth \<le> stack \<and> getAllValidMoves board player \<noteq> [] \<longrightarrow>
            (\<exists>r. findBestMove stack board player depth = Inr (Some r)))"
  using findBestMove_score [OF assms] findBestMove_value [OF assms] by blast

text \<open>
  The search of depth 3 from \<open>skirmishBoard\<close>: Red has four candidate moves, the score
  returned is 7, the value of the unpruned traversal. The window does cut this search: the
  position \<open>skirmishNode\<close> is met with the window from minus infinity to -8, and the
  loop over Red's moves there stops at the first one with the value -8, while the unpruned
  value of that position is -3.
\<close>

theorem alpha_beta_equals_full_minimax_witness:
  "(1 :: int) \<le> 3 \<and> nat 3 \<le> (3 :: nat)
   \<and> getAllValidMoves skirmishBoard Red = [step 2 1 3 0, step 2 1 3 2, step 2 3 3 2, step 2 3 3 4]
   \<and> (\<exists>r. findBestMove 3 skirmishBoard Red 3 = Inr (Some r) \<and> score r = Num 7)
   \<and> fullMinimax (nat 3) skirmishBoard True Red = Inr (Num 7)
   \<and> (case execute (clone skirmishBoard) 2 1 (move (step 2 1 3 0)) of
         Inl e \<Rightarrow> Inl e
       | Inr b \<Rightarrow> execute (clone b) 5 4 (move (step 5 4 4 3))) = Inr skirmishNode
   \<and> fullMinimax 1 skirmishNode True Red = Inr (Num (- 3))
   \<and> minimax 2 skirmishNode 1 NegInfinity (Num (- 8)) True Red = Inr (Num (- 8))"
proof -
  have m: "getAllValidMoves skirmishBoard Red = [step 2 1 3 0, step 2 1 3 2, step 2 3 3 2, step 2 3 3 4]"
    by code_simp
  have v: "fullMinimax (nat 3) skirmishBoard True Red = Inr (Num 7)" by code_simp
  have n: "(case execute (clone skirmishBoard) 2 1 (move (step 2 1 3 0)) of
         Inl e \<Rightarrow> Inl e
       | Inr b \<Rightarrow> execute (clone b) 5 4 (move (step 5 4 4 3))) = Inr skirmishNode"
    by (auto simp: skirmishBoard_def skirmishNode_def step_def execute_def movePiece_def clone_def
        setPiece_def setCell_def emptyBoard_def inRange_def fun_eq_iff)
  have c: "fullMinimax 1 skirmishNode True Red = Inr (Num (- 3))"
    "minimax 2 skirmishNode 1 NegInfinity (Num (- 8)) True Red = Inr (Num (- 8))"
    by code_simp+
  from alpha_beta_equals_full_minimax [of 3 3 skirmishBoard Red] m v
  have "\<exists>r. findBestMove 3 skirmishBoard Red 3 = Inr (Some r) \<and> score r = Num 7"
    by auto
  with m v n c show ?thesis by simp
qed

text \<open>
  Claim C8, as the code has it. Whatever the depth and the call stack, \<open>findBestMove\<close>
  returns \<open>null\<close> when the player has no legal move and returns \<open>null\<close> only then,
  a move that it returns is one of the candidate moves, and the only error that it can end
  in is the \<open>RangeError\<close> of an exhausted call stack: it never throws for lack of
  moves. For a depth of at least 1 and a call stack of at least \<open>depth\<close> frames it
  raises nothing: when the player has a legal move it returns one of the candidate moves,
  with a score.
\<close>

theorem findBestMove_null_iff_no_moves:
  "(getAllValidMoves board player = [] \<longrightarrow> findBestMove stack board player depth = Inr None)
   \<and> (findBestMove stack board player depth = Inr None \<longrightarrow> getAllValidMoves board player = [])
   \<and> (\<forall>r. findBestMove stack board player depth = Inr (Some r) \<longrightarrow>
         candidate r \<in> set (getAllValidMoves board player))
   \<and> (\<forall>e. findBestMove stack board player depth = Inl e \<longrightarrow> e = RangeError)
   \<and> (1 \<le> depth \<and> nat depth \<le> stack \<and> getAllValidMoves board player \<noteq> [] \<longrightarrow>
        (\<exists>r. findBestMove stack board player depth = Inr (Some r)
           \<and> candidate r \<in> set (getAllValidMoves board player)))"
proof (intro conjI impI allI)
  assume "getAllValidMoves board player = []"
  then show "findBestMove stack board player depth = Inr None"
    by (simp add: findBestMove_def)
next
  assume none: "findBestMove stack board player depth = Inr None"
  show "getAllValidMoves board player = []"
  proof (rule ccontr)
    assume "getAllValidMoves board player \<noteq> []"
    with none bestLoop_result [of _ board "getAllValidMoves board player" NegInfinity Infinity None None]
    show False by (simp add: findBestMove_def Let_def)
  qed
next
  fix r assume "findBestMove stack board player depth = Inr (Some r)"
  with bestLoop_result [of _ board "getAllValidMoves board player" NegInfinity Infinity None "Some r"]
  show "candidate r \<in> set (getAllValidMoves board player)"
    by (auto simp: findBestMove_def Let_def split: if_splits)
next
  fix e assume "findBestMove stack board player depth = Inl e"
  then show "e = RangeError" by (rule findBestMove_error)
next
  assume "1 \<le> depth \<and> nat depth \<le> stack \<and> getAllValidMoves board player \<noteq> []"
  then show "\<exists>r. findBestMove stack board player depth = Inr (Some r)
           \<and> candidate r \<in> set (getAllValidMoves board player)"
    using findBestMove_value [of depth stack board player] by blast
qed

theorem findBestMove_null_iff_no_moves_witness:
  "getAllValidMoves blockedBoard Red = [] \<and> findBestMove 4 blockedBoard Red 4 = Inr None
   \<and> (1 :: int) \<le> 2 \<and> nat 2 \<le> (2 :: nat) \<and> getAllValidMoves forcedBoard Red \<noteq> []
   \<and> findBestMove 2 forcedBoard Red 2 \<noteq> Inr None
   \<and> (\<exists>r. findBestMove 2 forcedBoard Red 2 = Inr (Some r)
         \<and> candidate r \<in> set (getAllValidMoves forcedBoard Red))
   \<and> findBestMove 0 skirmishBoard Red 1 = Inl RangeError"
proof -
  have a: "getAllValidMoves blockedBoard Red = []" by code_simp
  have b: "getAllValidMoves forcedBoard Red \<noteq> []" by code_simp
  have "isl (findBestMove 0 skirmishBoard Red 1)" by code_simp
  then obtain e where "findBestMove 0 skirmishBoard Red 1 = Inl e" by (auto simp: isl_def)
  with findBestMove_null_iff_no_moves [of skirmishBoard Red 0 1]
  have c: "findBestMove 0 skirmishBoard Red 1 = Inl RangeError" by simp
  from findBestMove_null_iff_no_moves [of blockedBoard Red 4 4] a
  have d: "findBestMove 4 blockedBoard Red 4 = Inr None" by simp
  from findBestMove_null_iff_no_moves [of forcedBoard Red 2 2] b
  have e: "findBestMove 2 forcedBoard Red 2 \<noteq> Inr None"
    "\<exists>r. findBestMove 2 forcedBoard Red 2 = Inr (Some r)
         \<and> candidate r \<in> set (getAllValidMoves forcedBoard Red)"
    by simp_all
  from a b c d e show ?thesis by simp
qed

subsection \<open>Depth 0\<close>

text \<open>
  With depth 0 the top level calls \<open>minimax\<close> with depth -1, which never meets the test
  \<open>depth === 0\<close>: the recursion ends only where a side has no move. In the position
  below each side can shuffle a king for ever, and the first move of each list does so, so
  the first branch of the search never ends.
\<close>

lemma cycle_moves:
  "getAllValidMoves (cycleBoard (0, 1) (0, 7)) Red = [step 0 1 1 0, step 0 1 1 2]"
  "getAllValidMoves (cycleBoard (1, 0) (0, 7)) Black = [step 0 7 1 6]"
  "getAllValidMoves (cycleBoard (1, 0) (1, 6)) Red = [step 1 0 0 1, step 1 0 2 1]"
  "getAllValidMoves (cycleBoard (0, 1) (1, 6)) Black = [step 1 6 0 7, step 1 6 2 5, step 1 6 2 7]"
  by code_simp+

lemma cycle_execute:
  "execute (clone (cycleBoard (0, 1) (0, 7))) 0 1 (move (step 0 1 1 0)) = Inr (cycleBoard (1, 0) (0, 7))"
  "execute (clone (cycleBoard (1, 0) (0, 7))) 0 7 (move (step 0 7 1 6)) = Inr (cycleBoard (1, 0) (1, 6))"
  "execute (clone (cycleBoard (1, 0) (1, 6))) 1 0 (move (step 1 0 0 1)) = Inr (cycleBoard (0, 1) (1, 6))"
  "execute (clone (cycleBoard (0, 1) (1, 6))) 1 6 (move (step 1 6 0 7)) = Inr (cycleBoard (0, 1) (0, 7))"
  by (auto simp: cycleBoard_def step_def execute_def movePiece_def clone_def setPiece_def setCell_def
      emptyBoard_def inRange_def fun_eq_iff)

lemma cycle_diverges:
  "depth < 0 \<Longrightarrow>
     minimax stack (cycleBoard (1, 0) (0, 7)) depth NegInfinity Infinity False Red = Inl RangeError
     \<and> minimax stack (cycleBoard (1, 0) (1, 6)) depth NegInfinity Infinity True Red = Inl RangeError
     \<and> minimax stack (cycleBoard (0, 1) (1, 6)) depth NegInfinity Infinity False Red = Inl RangeError
     \<and> minimax stack (cycleBoard (0, 1) (0, 7)) depth NegInfinity Infinity True Red = Inl RangeError"
proof (induction stack arbitrary: depth)
  case 0
  then show ?case by simp
next
  case (Suc stack)
  from Suc.prems have "depth - 1 < 0" "depth \<noteq> 0" by simp_all
  from Suc.IH [OF this(1)] this(2) show ?case
    by (simp add: cycle_moves opponentOf_def Let_def)
      (simp add: step_def cycle_execute [unfolded step_def, simplified])
qed

text \<open>
  Claim C8 as stated fails at depth 0 (and below): in this position Red has legal moves, and
  \<open>findBestMove\<close> returns nothing however deep the call stack; it ends in the
  \<open>RangeError\<close> of the exhausted stack.
\<close>

theorem findBestMove_depth_0_counterexample:
  "getAllValidMoves (cycleBoard (0, 1) (0, 7)) Red \<noteq> []
   \<and> (\<forall>stack. findBestMove stack (cycleBoard (0, 1) (0, 7)) Red 0 = Inl RangeError)
   \<and> (\<forall>stack. findBestMove stack (cycleBoard (0, 1) (0, 7)) Red (-1) = Inl RangeError)"
proof -
  have "findBestMove stack (cycleBoard (0, 1) (0, 7)) Red depth = Inl RangeError"
    if "depth \<le> 0" for stack depth
    using cycle_diverges [of "depth - 1" stack] that
    by (simp add: findBestMove_def cycle_moves Let_def)
      (simp add: step_def cycle_execute [unfolded step_def, simplified])
  then show ?thesis by (simp add: cycle_moves)
qed

end
